theory Spec2Isabelle
  imports Main "HOL-Library.Word"
begin

section \<open>The external heredoc scanner of tree-sitter-hack (src/scanner.c)\<close>

subsection \<open>Machine types, memory objects and faults\<close>

type_synonym u32 = "32 word"
type_synonym cchar = "8 word"

text \<open>
  A memory object (the delimiter allocation, the host's serialization buffer) is the list
  of its bytes. An access that leaves the object is undefined behaviour in C; the model
  returns \<open>Inl (OutOfBounds off n)\<close>, the offset and the byte count of the access.
\<close>

datatype fault = OutOfBounds nat nat

definition bindF :: "fault + 'a \<Rightarrow> ('a \<Rightarrow> fault + 'b) \<Rightarrow> fault + 'b" where
  "bindF m f = (case m of Inl e \<Rightarrow> Inl e | Inr x \<Rightarrow> f x)"

definition load_byte :: "cchar list \<Rightarrow> nat \<Rightarrow> fault + cchar" where
  "load_byte obj off = (if off < length obj then Inr (obj ! off) else Inl (OutOfBounds off 1))"

definition store_byte :: "cchar list \<Rightarrow> nat \<Rightarrow> cchar \<Rightarrow> fault + cchar list" where
  "store_byte obj off v =
     (if off < length obj then Inr (obj[off := v]) else Inl (OutOfBounds off 1))"

definition load_bytes :: "cchar list \<Rightarrow> nat \<Rightarrow> nat \<Rightarrow> fault + cchar list" where
  "load_bytes obj off n =
     (if off + n \<le> length obj then Inr (take n (drop off obj)) else Inl (OutOfBounds off n))"

definition store_bytes :: "cchar list \<Rightarrow> nat \<Rightarrow> cchar list \<Rightarrow> fault + cchar list" where
  "store_bytes obj off bs =
     (if off + length bs \<le> length obj
      then Inr (take off obj @ bs @ drop (off + length bs) obj)
      else Inl (OutOfBounds off (length bs)))"

text \<open>\<open>memcpy (dst + doff, src + soff, n)\<close>.\<close>

definition memcpy :: "cchar list \<Rightarrow> nat \<Rightarrow> cchar list \<Rightarrow> nat \<Rightarrow> nat \<Rightarrow> fault + cchar list" where
  "memcpy dst doff src soff n = bindF (load_bytes src soff n) (\<lambda>bs. store_bytes dst doff bs)"

text \<open>\<open>memset (obj + off, 0, n)\<close>.\<close>

definition memset0 :: "cchar list \<Rightarrow> nat \<Rightarrow> nat \<Rightarrow> fault + cchar list" where
  "memset0 obj off n =
     (if off + n \<le> length obj
      then Inr (take off obj @ replicate n 0 @ drop (off + n) obj)
      else Inl (OutOfBounds off n))"

text \<open>
  \<open>realloc (obj, n)\<close> keeps the first \<open>n\<close> bytes and extends the object to \<open>n\<close> bytes.
  The new bytes are indeterminate in C; they are 0 here, and the scanner overwrites each
  of them before it reads it. Allocation failure (the \<open>assert\<close> of \<open>string_resize\<close>) is
  not modelled.
\<close>

definition realloc :: "cchar list \<Rightarrow> nat \<Rightarrow> cchar list" where
  "realloc obj n = take n obj @ replicate (n - length obj) 0"

subsection \<open>The growable string (lines 91-129)\<close>

record String =
  cap :: u32
  len :: u32
  data :: "cchar list"

definition string_new :: String where
  "string_new = \<lparr>cap = 16, len = 0, data = replicate 17 0\<rparr>"

definition string_resize :: "String \<Rightarrow> u32 \<Rightarrow> fault + String" where
  "string_resize string c =
     (let tmp = realloc (data string) (unat (c + 1)) in
      bindF (memset0 tmp (unat (len string)) (unat ((c + 1) - len string)))
        (\<lambda>d. Inr (string\<lparr>data := d, cap := c\<rparr>)))"

definition string_grow :: "String \<Rightarrow> u32 \<Rightarrow> fault + String" where
  "string_grow string c = (if cap string < c then string_resize string c else Inr string)"

definition string_push :: "String \<Rightarrow> cchar \<Rightarrow> fault + String" where
  "string_push string chr =
     bindF (if cap string = len string
            then string_resize string (max 16 (len string * 2))
            else Inr string)
       (\<lambda>string. bindF (store_byte (data string) (unat (len string)) chr)
          (\<lambda>d. Inr (string\<lparr>data := d, len := len string + 1\<rparr>)))"

text \<open>
  \<open>string_clear\<close> writes \<open>cap\<close> zero bytes from the start of the allocation, which holds
  \<open>cap + 1\<close> bytes (\<open>string_wf\<close> below), so the write stays inside it.
\<close>

definition string_clear :: "String \<Rightarrow> String" where
  "string_clear string =
     string\<lparr>len := 0,
            data := replicate (unat (cap string)) 0 @ drop (unat (cap string)) (data string)\<rparr>"

definition string_wf :: "String \<Rightarrow> bool" where
  "string_wf string \<longleftrightarrow>
     length (data string) = unat (cap string) + 1 \<and> len string \<le> cap string"

text \<open>The bytes of the delimiter: \<open>data[0 .. len)\<close>.\<close>

definition string_bytes :: "String \<Rightarrow> cchar list" where
  "string_bytes string = take (unat (len string)) (data string)"

subsection \<open>The scanner state (lines 131-136) and its serialization (lines 163-188)\<close>

record Scanner =
  delimiter :: String
  is_nowdoc :: bool
  did_start :: bool
  did_end :: bool

text \<open>
  Modelled from the spec: \<open>TREE_SITTER_SERIALIZATION_BUFFER_SIZE\<close> comes from
  \<open>tree_sitter/parser.h\<close>, which is not part of the repository; section 5 gives the size of
  the host's region as 1024 bytes.
\<close>

definition TREE_SITTER_SERIALIZATION_BUFFER_SIZE :: u32 where
  "TREE_SITTER_SERIALIZATION_BUFFER_SIZE = 1024"

definition bool_to_char :: "bool \<Rightarrow> cchar" where
  "bool_to_char b = (if b then 1 else 0)"

definition char_to_bool :: "cchar \<Rightarrow> bool" where
  "char_to_bool c \<longleftrightarrow> c \<noteq> 0"

definition serialize :: "Scanner \<Rightarrow> cchar list \<Rightarrow> fault + (u32 \<times> cchar list)" where
  "serialize scanner buffer =
     (if len (delimiter scanner) + 2 \<ge> TREE_SITTER_SERIALIZATION_BUFFER_SIZE
      then Inr (0, buffer)
      else
        bindF (store_byte buffer 0 (bool_to_char (is_nowdoc scanner))) (\<lambda>buffer.
        bindF (store_byte buffer 1 (bool_to_char (did_start scanner))) (\<lambda>buffer.
        bindF (store_byte buffer 2 (bool_to_char (did_end scanner))) (\<lambda>buffer.
        bindF (memcpy buffer 3 (data (delimiter scanner)) 0
                 (unat (len (delimiter scanner)))) (\<lambda>buffer.
        Inr (len (delimiter scanner) + 3, buffer))))))"

definition deserialize :: "Scanner \<Rightarrow> cchar list \<Rightarrow> u32 \<Rightarrow> fault + Scanner" where
  "deserialize scanner buffer length_u =
     (if length_u = 0
      then Inr (scanner\<lparr>is_nowdoc := False, did_start := False, did_end := False,
                        delimiter := string_clear (delimiter scanner)\<rparr>)
      else
        bindF (load_byte buffer 0) (\<lambda>b0.
        bindF (load_byte buffer 1) (\<lambda>b1.
        bindF (load_byte buffer 2) (\<lambda>b2.
        let string = (delimiter scanner)\<lparr>len := length_u - 3\<rparr> in
        bindF (string_grow string (len string)) (\<lambda>string.
        bindF (memcpy (data string) 0 buffer 3 (unat (len string))) (\<lambda>d.
        Inr (scanner\<lparr>is_nowdoc := char_to_bool b0, did_start := char_to_bool b1,
                     did_end := char_to_bool b2,
                     delimiter := string\<lparr>data := d\<rparr>\<rparr>)))))))"

subsection \<open>The platform: character classes and the signedness of \<open>char\<close>\<close>

text \<open>
  Modelled from the spec: \<open>iswspace\<close>, \<open>iswalpha\<close> and \<open>iswalnum\<close> belong to the C library
  (\<open>wctype.h\<close>), not to the repository; section 9 restricts them to ASCII letters, digits
  and white space. On ASCII code points every locale classifies as the C locale does, and
  \<open>iswalnum\<close> is \<open>iswalpha\<close> or a decimal digit; what a locale adds above 127 is the
  parameter \<open>alpha_class\<close> (\<open>space_class\<close>). Whether \<open>char\<close> is signed is the
  implementation's choice, the parameter \<open>char_signed\<close>.
\<close>

record platform =
  alpha_class :: "int \<Rightarrow> bool"
  space_class :: "int \<Rightarrow> bool"
  char_signed :: bool

definition iswalpha :: "platform \<Rightarrow> int \<Rightarrow> bool" where
  "iswalpha P c \<longleftrightarrow> (65 \<le> c \<and> c \<le> 90) \<or> (97 \<le> c \<and> c \<le> 122) \<or> (127 < c \<and> alpha_class P c)"

definition iswalnum :: "platform \<Rightarrow> int \<Rightarrow> bool" where
  "iswalnum P c \<longleftrightarrow> iswalpha P c \<or> (48 \<le> c \<and> c \<le> 57)"

definition iswspace :: "platform \<Rightarrow> int \<Rightarrow> bool" where
  "iswspace P c \<longleftrightarrow> c = 32 \<or> (9 \<le> c \<and> c \<le> 13) \<or> (127 < c \<and> space_class P c)"

text \<open>The C locale, in force when \<open>setlocale\<close> was never called, with a signed \<open>char\<close>.\<close>

definition c_locale :: platform where
  "c_locale = \<lparr>alpha_class = (\<lambda>c. False), space_class = (\<lambda>c. False), char_signed = True\<rparr>"

text \<open>The conversions \<open>(char) chr\<close> of \<open>string_push\<close> and \<open>char\<close> to \<open>int\<close> of the comparison
  in \<open>scan_delimiter\<close>.\<close>

definition int_to_char :: "int \<Rightarrow> cchar" where
  "int_to_char c = word_of_int c"

definition char_to_int :: "platform \<Rightarrow> cchar \<Rightarrow> int" where
  "char_to_int P b = (if char_signed P then sint b else uint b)"

subsection \<open>The host lexer (section 4.1 of the spec)\<close>

datatype TokenType =
  HEREDOC_START | HEREDOC_START_NEWLINE | HEREDOC_BODY | HEREDOC_END_NEWLINE
  | HEREDOC_END | EMBEDDED_OPENING_BRACE

text \<open>
  Modelled from the spec: \<open>TSLexer\<close> is the host's type (\<open>tree_sitter/parser.h\<close>). The model
  keeps the code points not yet consumed (\<open>lookahead\<close> is the first of them, 0 at the end of
  the input), the cursor \<open>pos\<close>, the start of the token, which \<open>advance\<close> with
  \<open>skip = true\<close> moves, the position of the last \<open>mark_end\<close> and \<open>result_symbol\<close>. At the
  end of the input \<open>advance\<close> has nothing to consume.
\<close>

record TSLexer =
  input :: "int list"
  pos :: nat
  token_start :: nat
  token_end :: "nat option"
  result_symbol :: TokenType

definition peek :: "TSLexer \<Rightarrow> int" where
  "peek lexer = (case input lexer of [] \<Rightarrow> 0 | c # cs \<Rightarrow> c)"

definition advance :: "TSLexer \<Rightarrow> bool \<Rightarrow> TSLexer" where
  "advance lexer skip =
     (case input lexer of
        [] \<Rightarrow> lexer
      | c # cs \<Rightarrow> lexer\<lparr>input := cs, pos := pos lexer + 1,
                        token_start := (if skip then pos lexer + 1 else token_start lexer)\<rparr>)"

definition mark_end :: "TSLexer \<Rightarrow> TSLexer" where
  "mark_end lexer = lexer\<lparr>token_end := Some (pos lexer)\<rparr>"

text \<open>The macros \<open>next()\<close>, \<open>skip()\<close>, \<open>stop()\<close> and \<open>set(symbol)\<close> of lines 40-65.\<close>

definition next_l :: "TSLexer \<Rightarrow> TSLexer" where
  "next_l lexer = advance lexer False"

definition skip_l :: "TSLexer \<Rightarrow> TSLexer" where
  "skip_l lexer = advance lexer True"

definition stop_l :: "TSLexer \<Rightarrow> TSLexer" where
  "stop_l lexer = mark_end lexer"

definition set_symbol :: "TokenType \<Rightarrow> TSLexer \<Rightarrow> TSLexer" where
  "set_symbol symbol lexer = lexer\<lparr>result_symbol := symbol\<rparr>"

text \<open>A lexer at the start of a scan: cursor and token start at \<open>p\<close>, no end marked.\<close>

definition lexer_at :: "int list \<Rightarrow> nat \<Rightarrow> TSLexer" where
  "lexer_at cs p = \<lparr>input = drop p cs, pos = p, token_start = p, token_end = None,
                     result_symbol = HEREDOC_START\<rparr>"

abbreviation NUL :: int where "NUL \<equiv> 0"
abbreviation NEWLINE :: int where "NEWLINE \<equiv> 10"
abbreviation DQUOTE :: int where "DQUOTE \<equiv> 34"
abbreviation DOLLAR :: int where "DOLLAR \<equiv> 36"
abbreviation SQUOTE :: int where "SQUOTE \<equiv> 39"
abbreviation SEMICOLON :: int where "SEMICOLON \<equiv> 59"
abbreviation BACKSLASH :: int where "BACKSLASH \<equiv> 92"
abbreviation UNDERSCORE :: int where "UNDERSCORE \<equiv> 95"
abbreviation LBRACE :: int where "LBRACE \<equiv> 123"

subsection \<open>Scanning (lines 190-421)\<close>

definition is_identifier_start_char :: "int \<Rightarrow> bool" where
  "is_identifier_start_char chr \<longleftrightarrow>
     chr = UNDERSCORE \<or> (97 \<le> chr \<and> chr \<le> 122) \<or> (65 \<le> chr \<and> chr \<le> 90)
     \<or> (128 \<le> chr \<and> chr \<le> 255)"

text \<open>
  \<open>scan_delimiter\<close>: the loop over \<open>index < delimiter.len\<close>. The read of \<open>data[index]\<close> is
  inside the allocation of a well-formed string.
\<close>

function scan_delimiter_from :: "platform \<Rightarrow> Scanner \<Rightarrow> nat \<Rightarrow> TSLexer \<Rightarrow> bool \<times> TSLexer" where
  "scan_delimiter_from P scanner index lexer =
     (if index < unat (len (delimiter scanner))
      then (if char_to_int P (data (delimiter scanner) ! index) = peek lexer
            then scan_delimiter_from P scanner (index + 1) (next_l lexer)
            else (False, lexer))
      else (True, lexer))"
  by pat_completeness auto
termination
  by (relation "measure (\<lambda>(P, scanner, index, lexer). unat (len (delimiter scanner)) - index)")
     auto

definition scan_delimiter :: "platform \<Rightarrow> Scanner \<Rightarrow> TSLexer \<Rightarrow> bool \<times> TSLexer" where
  "scan_delimiter P scanner lexer = scan_delimiter_from P scanner 0 lexer"

text \<open>
  One iteration of the loop of \<open>scan_body\<close>: it returns (\<open>Return\<close>, with the result, the
  scanner and the lexer) or goes on (\<open>Continue\<close>, with \<open>did_advance\<close> and the lexer). The
  scanner changes only on a return.
\<close>

datatype body_step = Return bool Scanner TSLexer | Continue bool TSLexer

text \<open>Lines 242-252: the \<open>$\<close> test that ends the interpolation branch.\<close>

definition scan_body_dollar :: "Scanner \<Rightarrow> bool \<Rightarrow> TSLexer \<Rightarrow> body_step" where
  "scan_body_dollar scanner did_advance lexer =
     (if peek lexer = DOLLAR
      then (let lexer = next_l lexer in
            if is_identifier_start_char (peek lexer)
            then Return did_advance scanner (set_symbol HEREDOC_BODY lexer)
            else Continue True lexer)
      else Continue True lexer)"

text \<open>Lines 226-252: the branch of \<open>{\<close> and \<open>$\<close> outside a nowdoc.\<close>

definition scan_body_interpolation :: "Scanner \<Rightarrow> bool \<Rightarrow> TSLexer \<Rightarrow> body_step" where
  "scan_body_interpolation scanner did_advance lexer =
     (let lexer = stop_l lexer in
      if peek lexer = LBRACE
      then (let lexer = next_l lexer in
            if peek lexer = DOLLAR \<and> \<not> did_advance
            then (let lexer = next_l (stop_l lexer) in
                  if is_identifier_start_char (peek lexer)
                  then Return True scanner (set_symbol EMBEDDED_OPENING_BRACE lexer)
                  else scan_body_dollar scanner did_advance lexer)
            else scan_body_dollar scanner did_advance lexer)
      else scan_body_dollar scanner did_advance lexer)"

text \<open>Lines 256-323: the branch of a newline, or of a closing delimiter seen before.\<close>

definition scan_body_close :: "platform \<Rightarrow> Scanner \<Rightarrow> bool \<Rightarrow> TSLexer \<Rightarrow> body_step" where
  "scan_body_close P scanner did_advance lexer =
     (let lexer = (if did_advance then next_l (stop_l lexer)
                   else if peek lexer = NEWLINE
                   then (if did_end scanner then skip_l lexer else stop_l (next_l lexer))
                   else lexer);
          (matched, lexer) = scan_delimiter P scanner lexer
      in if matched
         then (let lexer = (if \<not> did_advance \<and> did_end scanner then stop_l lexer else lexer);
                   lexer = (if peek lexer = SEMICOLON then next_l lexer else lexer)
               in if peek lexer = NEWLINE
                  then (if did_advance
                        then Return True (scanner\<lparr>did_start := True, did_end := True\<rparr>)
                               (set_symbol HEREDOC_BODY lexer)
                        else if did_end scanner
                        then Return True
                               (scanner\<lparr>delimiter := string_clear (delimiter scanner),
                                        is_nowdoc := False, did_start := False,
                                        did_end := False\<rparr>)
                               (set_symbol HEREDOC_END lexer)
                        else Return True (scanner\<lparr>did_start := True, did_end := True\<rparr>)
                               (set_symbol HEREDOC_END_NEWLINE lexer))
                  else Continue True lexer)
         else if \<not> did_start scanner \<and> \<not> did_advance
         then Return True (scanner\<lparr>did_start := True\<rparr>)
                (set_symbol HEREDOC_START_NEWLINE lexer)
         else Continue True lexer)"

definition scan_body_step :: "platform \<Rightarrow> Scanner \<Rightarrow> bool \<Rightarrow> TSLexer \<Rightarrow> body_step" where
  "scan_body_step P scanner did_advance lexer =
     (if peek lexer = NUL then Return False scanner lexer
      else if peek lexer = BACKSLASH then Continue True (next_l (next_l lexer))
      else if (peek lexer = LBRACE \<or> peek lexer = DOLLAR) \<and> \<not> is_nowdoc scanner
      then scan_body_interpolation scanner did_advance lexer
      else if did_end scanner \<or> peek lexer = NEWLINE
      then scan_body_close P scanner did_advance lexer
      else Continue True (next_l lexer))"

subsection \<open>The loop of \<open>scan_body\<close> terminates\<close>

declare scan_delimiter_from.simps [simp del]

lemma input_advance [simp]: "input (advance lexer s) = tl (input lexer)"
  by (simp add: advance_def split: list.split)

lemma input_next_l [simp]: "input (next_l lexer) = tl (input lexer)"
  by (simp add: next_l_def)

lemma input_skip_l [simp]: "input (skip_l lexer) = tl (input lexer)"
  by (simp add: skip_l_def)

lemma input_stop_l [simp]: "input (stop_l lexer) = input lexer"
  by (simp add: stop_l_def mark_end_def)

lemma input_set_symbol [simp]: "input (set_symbol t lexer) = input lexer"
  by (simp add: set_symbol_def)

lemma peek_stop_l [simp]: "peek (stop_l lexer) = peek lexer"
  by (simp add: peek_def)

lemma peek_set_symbol [simp]: "peek (set_symbol t lexer) = peek lexer"
  by (simp add: peek_def)

lemma peek_nonzero: "peek lexer \<noteq> 0 \<Longrightarrow> \<exists>c cs. input lexer = c # cs"
  by (cases "input lexer") (auto simp: peek_def)

lemma input_scan_delimiter_from:
  "length (input (snd (scan_delimiter_from P scanner index lexer))) \<le> length (input lexer)"
proof (induction P scanner index lexer rule: scan_delimiter_from.induct)
  case (1 P scanner index lexer)
  show ?case
  proof (cases "index < unat (len (delimiter scanner))
                \<and> char_to_int P (data (delimiter scanner) ! index) = peek lexer")
    case True
    then have "length (input (snd (scan_delimiter_from P scanner (index + 1) (next_l lexer))))
               \<le> length (input (next_l lexer))"
      using "1.IH" by simp
    also have "\<dots> \<le> length (input lexer)"
      by simp
    finally show ?thesis
      using True by (subst scan_delimiter_from.simps) simp
  next
    case False
    then show ?thesis
      by (subst scan_delimiter_from.simps) auto
  qed
qed

lemma input_scan_delimiter:
  "scan_delimiter P scanner lexer = (m, lexer') \<Longrightarrow> length (input lexer') \<le> length (input lexer)"
  using input_scan_delimiter_from [of P scanner 0 lexer] by (simp add: scan_delimiter_def)

lemma scan_body_dollar_Continue:
  "scan_body_dollar scanner d lexer = Continue d' lexer' \<Longrightarrow>
     d' \<and> length (input lexer') \<le> length (input lexer)"
  by (auto simp: scan_body_dollar_def Let_def split: if_splits)

lemma scan_body_interpolation_Continue:
  assumes "scan_body_interpolation scanner d lexer = Continue d' lexer'"
    and "peek lexer = LBRACE \<or> peek lexer = DOLLAR"
  shows "d' \<and> length (input lexer') < length (input lexer)"
proof -
  obtain c cs where ne: "input lexer = c # cs" using assms(2) peek_nonzero [of lexer] by auto
  show ?thesis
  proof (cases "peek lexer = LBRACE")
    case True
    then show ?thesis
      using assms(1) ne
      by (auto simp: scan_body_interpolation_def Let_def
          split: if_splits dest!: scan_body_dollar_Continue)
  next
    case False
    then have "peek lexer = DOLLAR" using assms(2) by simp
    then show ?thesis
      using assms(1) ne False
      by (auto simp: scan_body_interpolation_def scan_body_dollar_def Let_def
          split: if_splits)
  qed
qed

lemma scan_body_close_Continue:
  assumes "scan_body_close P scanner d lexer = Continue d' lexer'" and "peek lexer \<noteq> 0"
  shows "d' \<and> length (input lexer') \<le> length (input lexer)
         \<and> (d \<longrightarrow> length (input lexer') < length (input lexer))"
proof -
  obtain c cs where ne: "input lexer = c # cs" using assms(2) peek_nonzero [of lexer] by auto
  define lexer1 where "lexer1 = (if d then next_l (stop_l lexer)
                   else if peek lexer = NEWLINE
                   then (if did_end scanner then skip_l lexer else stop_l (next_l lexer))
                   else lexer)"
  obtain m lexer2 where sd: "scan_delimiter P scanner lexer1 = (m, lexer2)"
    by (cases "scan_delimiter P scanner lexer1")
  have l1: "length (input lexer1) \<le> length (input lexer)"
    and l1d: "d \<Longrightarrow> length (input lexer1) < length (input lexer)"
    using ne by (auto simp: lexer1_def)
  have l2: "length (input lexer2) \<le> length (input lexer1)"
    using sd by (rule input_scan_delimiter)
  have "d' \<and> length (input lexer') \<le> length (input lexer2)"
    using assms(1) sd
    by (auto simp: scan_body_close_def Let_def lexer1_def [symmetric] split: if_splits)
  then show ?thesis
    using l1 l1d l2 by auto
qed

lemma scan_body_step_Continue:
  assumes "scan_body_step P scanner d lexer = Continue d' lexer'"
  shows "d' \<and> length (input lexer') \<le> length (input lexer)
         \<and> (d \<longrightarrow> length (input lexer') < length (input lexer))"
proof -
  have nz: "peek lexer \<noteq> 0"
    using assms by (auto simp: scan_body_step_def split: if_splits)
  then obtain c cs where ne: "input lexer = c # cs" using peek_nonzero [of lexer] by auto
  consider (esc) "peek lexer = BACKSLASH"
    | (interp) "peek lexer \<noteq> BACKSLASH" "(peek lexer = LBRACE \<or> peek lexer = DOLLAR) \<and> \<not> is_nowdoc scanner"
    | (close) "peek lexer \<noteq> BACKSLASH" "\<not> ((peek lexer = LBRACE \<or> peek lexer = DOLLAR) \<and> \<not> is_nowdoc scanner)"
        "did_end scanner \<or> peek lexer = NEWLINE"
    | (other) "peek lexer \<noteq> BACKSLASH" "\<not> ((peek lexer = LBRACE \<or> peek lexer = DOLLAR) \<and> \<not> is_nowdoc scanner)"
        "\<not> (did_end scanner \<or> peek lexer = NEWLINE)"
    by blast
  then show ?thesis
  proof cases
    case esc
    then show ?thesis using assms ne
      by (auto simp: scan_body_step_def)
  next
    case interp
    then have "scan_body_interpolation scanner d lexer = Continue d' lexer'"
      using assms nz by (simp add: scan_body_step_def)
    from scan_body_interpolation_Continue [OF this] interp show ?thesis by auto
  next
    case close
    then have "scan_body_close P scanner d lexer = Continue d' lexer'"
      using assms nz by (auto simp: scan_body_step_def split: if_splits)
    from scan_body_close_Continue [OF this nz] show ?thesis .
  next
    case other
    then show ?thesis using assms nz ne
      by (auto simp: scan_body_step_def)
  qed
qed

text \<open>
  Every iteration that goes on sets \<open>did_advance\<close>, and consumes input unless
  \<open>did_advance\<close> was still false: the loop \<open>for (;;)\<close> of lines 213-328 is total.
\<close>

function scan_body_loop :: "platform \<Rightarrow> Scanner \<Rightarrow> bool \<Rightarrow> TSLexer \<Rightarrow> bool \<times> Scanner \<times> TSLexer" where
  "scan_body_loop P scanner did_advance lexer =
     (case scan_body_step P scanner did_advance lexer of
        Return result scanner' lexer' \<Rightarrow> (result, scanner', lexer')
      | Continue did_advance' lexer' \<Rightarrow> scan_body_loop P scanner did_advance' lexer')"
  by pat_completeness auto
termination
proof (relation "measure (\<lambda>(P, scanner, did_advance, lexer).
                   2 * length (input lexer) + (if did_advance then 0 else 1))")
  show "wf (measure (\<lambda>(P, scanner, did_advance, lexer).
                   2 * length (input lexer) + (if did_advance then 0 else 1)))"
    by simp
next
  fix P scanner did_advance lexer d' lexer'
  assume "scan_body_step P scanner did_advance lexer = Continue d' lexer'"
  from scan_body_step_Continue [OF this]
  show "((P, scanner, d', lexer'), (P, scanner, did_advance, lexer))
        \<in> measure (\<lambda>(P, scanner, did_advance, lexer).
                   2 * length (input lexer) + (if did_advance then 0 else 1))"
    by auto
qed

definition scan_body :: "platform \<Rightarrow> Scanner \<Rightarrow> TSLexer \<Rightarrow> bool \<times> Scanner \<times> TSLexer" where
  "scan_body P scanner lexer = scan_body_loop P scanner False lexer"

declare scan_body_loop.simps [simp del]

subsection \<open>\<open>scan_start\<close> (lines 331-383)\<close>

lemma iswspace_nonzero: "iswspace P c \<Longrightarrow> c \<noteq> 0"
  by (auto simp: iswspace_def)

lemma iswalnum_nonzero: "iswalnum P c \<or> c = UNDERSCORE \<Longrightarrow> c \<noteq> 0"
  by (auto simp: iswalnum_def iswalpha_def)

text \<open>Line 334: \<open>while (iswspace(peek())) skip();\<close>\<close>

function skip_whitespace :: "platform \<Rightarrow> TSLexer \<Rightarrow> TSLexer" where
  "skip_whitespace P lexer =
     (if iswspace P (peek lexer) then skip_whitespace P (skip_l lexer) else lexer)"
  by pat_completeness auto
termination
proof (relation "measure (\<lambda>(P, lexer). length (input lexer))")
  show "wf (measure (\<lambda>(P, lexer). length (input lexer)))" by simp
next
  fix P :: platform and lexer
  assume "iswspace P (peek lexer)"
  then obtain c cs where "input lexer = c # cs"
    using iswspace_nonzero peek_nonzero by blast
  then show "((P, skip_l lexer), (P, lexer)) \<in> measure (\<lambda>(P, lexer). length (input lexer))"
    by simp
qed

text \<open>Lines 349-352: the loop over the rest of the identifier.\<close>

function scan_identifier_rest :: "platform \<Rightarrow> String \<Rightarrow> TSLexer \<Rightarrow> fault + (String \<times> TSLexer)" where
  "scan_identifier_rest P string lexer =
     (if iswalnum P (peek lexer) \<or> peek lexer = UNDERSCORE
      then (case string_push string (int_to_char (peek lexer)) of
              Inl e \<Rightarrow> Inl e
            | Inr string' \<Rightarrow> scan_identifier_rest P string' (next_l lexer))
      else Inr (string, lexer))"
  by pat_completeness auto
termination
proof (relation "measure (\<lambda>(P, string, lexer). length (input lexer))")
  show "wf (measure (\<lambda>(P, string, lexer). length (input lexer)))" by simp
next
  fix P :: platform and string string' :: String and lexer
  assume "iswalnum P (peek lexer) \<or> peek lexer = UNDERSCORE"
  then obtain c cs where "input lexer = c # cs"
    using iswalnum_nonzero peek_nonzero by blast
  then show "((P, string', next_l lexer), (P, string, lexer))
             \<in> measure (\<lambda>(P, string, lexer). length (input lexer))"
    by simp
qed

declare skip_whitespace.simps [simp del] scan_identifier_rest.simps [simp del]

text \<open>Lines 345-353.\<close>

definition scan_identifier :: "platform \<Rightarrow> String \<Rightarrow> TSLexer \<Rightarrow> fault + (String \<times> TSLexer)" where
  "scan_identifier P string lexer =
     (if iswalpha P (peek lexer) \<or> peek lexer = UNDERSCORE
      then bindF (string_push string (int_to_char (peek lexer)))
             (\<lambda>string. scan_identifier_rest P string (next_l lexer))
      else Inr (string, lexer))"

text \<open>
  Lines 357-382: the closing quote, the newline, the token and the look at the next line
  for the closing delimiter. \<open>quote\<close> is 0 when the opener has no quote.
\<close>

definition scan_start_finish :: "platform \<Rightarrow> Scanner \<Rightarrow> int \<Rightarrow> TSLexer \<Rightarrow> bool \<times> Scanner \<times> TSLexer" where
  "scan_start_finish P scanner quote lexer =
     (if peek lexer \<noteq> quote \<and> quote \<noteq> 0 then (False, scanner, lexer)
      else
        let lexer = (if peek lexer = quote then next_l lexer else lexer) in
        if peek lexer \<noteq> NEWLINE \<or> len (delimiter scanner) = 0
        then (False, scanner, lexer)
        else
          let lexer = next_l (stop_l (set_symbol HEREDOC_START lexer));
              (matched, lexer) = scan_delimiter P scanner lexer
          in if matched
             then (let lexer = (if peek lexer = SEMICOLON then next_l lexer else lexer)
                   in (True,
                       (if peek lexer = NEWLINE then scanner\<lparr>did_end := True\<rparr> else scanner),
                       lexer))
             else (True, scanner, lexer))"

text \<open>Lines 334-353, then the rest.\<close>

definition scan_start :: "platform \<Rightarrow> Scanner \<Rightarrow> TSLexer \<Rightarrow> fault + (bool \<times> Scanner \<times> TSLexer)" where
  "scan_start P scanner lexer =
     (let lexer = skip_whitespace P lexer;
          scanner = scanner\<lparr>is_nowdoc := (peek lexer = SQUOTE)\<rparr>;
          scanner = scanner\<lparr>delimiter := string_clear (delimiter scanner)\<rparr>;
          quoted = (is_nowdoc scanner \<or> peek lexer = DQUOTE);
          quote = (if quoted then peek lexer else 0);
          lexer = (if quoted then next_l lexer else lexer)
      in bindF (scan_identifier P (delimiter scanner) lexer) (\<lambda>(string, lexer).
           Inr (scan_start_finish P (scanner\<lparr>delimiter := string\<rparr>) quote lexer)))"

subsection \<open>The dispatcher and the entry points (lines 389-449)\<close>

text \<open>\<open>expected\<close> is the host's array of six flags, indexed by the token type.\<close>

definition scan :: "platform \<Rightarrow> Scanner \<Rightarrow> TSLexer \<Rightarrow> (TokenType \<Rightarrow> bool)
                     \<Rightarrow> fault + (bool \<times> Scanner \<times> TSLexer)" where
  "scan P scanner lexer expected =
     (if (expected HEREDOC_BODY \<or> expected HEREDOC_END \<or> expected EMBEDDED_OPENING_BRACE)
         \<and> len (delimiter scanner) > 0
      then Inr (scan_body P scanner lexer)
      else if expected HEREDOC_START then scan_start P scanner lexer
      else Inr (False, scanner, lexer))"

text \<open>\<open>tree_sitter_hack_external_scanner_create\<close>: \<open>calloc\<close> and \<open>string_new\<close>.\<close>

definition create :: Scanner where
  "create = \<lparr>delimiter = string_new, is_nowdoc = False, did_start = False, did_end = False\<rparr>"

text \<open>The state after the opener of \<open><<<EOF\<close> whose next line is the closing \<open>EOF;\<close>.\<close>

definition heredoc_EOF :: Scanner where
  "heredoc_EOF =
     \<lparr>delimiter = \<lparr>cap = 16, len = 3, data = [69, 79, 70] @ replicate 14 0\<rparr>,
      is_nowdoc = False, did_start = False, did_end = True\<rparr>"

subsection \<open>Notions for the statements\<close>

text \<open>
  A state with the delimiter \<open>EOF\<close> inside the body: \<open>HEREDOC_START_NEWLINE\<close> was emitted and
  no closing delimiter has been seen.
\<close>

definition heredoc_body :: Scanner where
  "heredoc_body =
     \<lparr>delimiter = \<lparr>cap = 16, len = 3, data = [69, 79, 70] @ replicate 14 0\<rparr>,
      is_nowdoc = False, did_start = True, did_end = False\<rparr>"

text \<open>
  \<open>lexer_le lexer lexer'\<close>: \<open>lexer'\<close> is \<open>lexer\<close> after some code points were consumed, and its
  mark is the one of \<open>lexer\<close> or was set at a position in between.
\<close>

definition lexer_le :: "TSLexer \<Rightarrow> TSLexer \<Rightarrow> bool" where
  "lexer_le lexer lexer' \<longleftrightarrow>
     pos lexer \<le> pos lexer' \<and> pos lexer' \<le> pos lexer + length (input lexer)
     \<and> input lexer' = drop (pos lexer' - pos lexer) (input lexer)
     \<and> (token_end lexer' = token_end lexer
        \<or> (\<exists>p. token_end lexer' = Some p \<and> pos lexer \<le> p \<and> p \<le> pos lexer'))"

text \<open>What a step returns or goes on with is a later lexer.\<close>

fun step_lexer :: "body_step \<Rightarrow> TSLexer" where
  "step_lexer (Return r scanner lexer) = lexer"
| "step_lexer (Continue d lexer) = lexer"

text \<open>
  The loop state (\<open>did_advance\<close> and the lexer) of \<open>scan_body\<close> after \<open>n\<close> iterations that
  went on; \<open>None\<close> when the loop has returned before.
\<close>

fun scan_body_after :: "platform \<Rightarrow> Scanner \<Rightarrow> nat \<Rightarrow> bool \<Rightarrow> TSLexer \<Rightarrow> (bool \<times> TSLexer) option" where
  "scan_body_after P scanner 0 did_advance lexer = Some (did_advance, lexer)"
| "scan_body_after P scanner (Suc n) did_advance lexer =
     (case scan_body_step P scanner did_advance lexer of
        Return result scanner' lexer' \<Rightarrow> None
      | Continue did_advance' lexer' \<Rightarrow> scan_body_after P scanner n did_advance' lexer')"

text \<open>The states the loop of \<open>scan_body\<close> passes through.\<close>

definition body_inv :: "Scanner \<Rightarrow> TSLexer \<Rightarrow> bool \<Rightarrow> TSLexer \<Rightarrow> bool" where
  "body_inv scanner lexer0 d lexer \<longleftrightarrow>
     lexer_le lexer0 lexer
     \<and> (if d then pos lexer0 < pos lexer
                  \<or> (did_end scanner
                     \<and> \<not> ((peek lexer0 = LBRACE \<or> peek lexer0 = DOLLAR) \<and> \<not> is_nowdoc scanner))
         else lexer = lexer0)"

text \<open>The delimiter as the code points \<open>scan_delimiter\<close> compares with the input.\<close>

definition delimiter_codes :: "platform \<Rightarrow> Scanner \<Rightarrow> int list" where
  "delimiter_codes P scanner = map (char_to_int P) (string_bytes (delimiter scanner))"

text \<open>The scanner after \<open>HEREDOC_END\<close> (lines 305-308).\<close>

definition closed :: "Scanner \<Rightarrow> Scanner" where
  "closed scanner =
     scanner\<lparr>delimiter := string_clear (delimiter scanner), is_nowdoc := False,
             did_start := False, did_end := False\<rparr>"


text \<open>
  The identifier \<open>scan_start\<close> takes from the head of the input (lines 345-353): a first
  character that is alphabetic or \<open>_\<close>, then the longest run of alphanumeric characters
  and \<open>_\<close>.
\<close>

definition is_ident_first :: "platform \<Rightarrow> int \<Rightarrow> bool" where
  "is_ident_first P c \<longleftrightarrow> iswalpha P c \<or> c = UNDERSCORE"

definition is_ident_rest :: "platform \<Rightarrow> int \<Rightarrow> bool" where
  "is_ident_rest P c \<longleftrightarrow> iswalnum P c \<or> c = UNDERSCORE"

definition identifier_prefix :: "platform \<Rightarrow> int list \<Rightarrow> int list" where
  "identifier_prefix P cs =
     (case cs of
        [] \<Rightarrow> []
      | c # cs' \<Rightarrow> if is_ident_first P c then c # takeWhile (is_ident_rest P) cs' else [])"

text \<open>The opener, as \<open>scan_start\<close> sees it after the white space.\<close>

definition opener_quote :: "TSLexer \<Rightarrow> int" where
  "opener_quote lexer = (if peek lexer = SQUOTE \<or> peek lexer = DQUOTE then peek lexer else 0)"

definition after_quote :: "TSLexer \<Rightarrow> TSLexer" where
  "after_quote lexer = (if peek lexer = SQUOTE \<or> peek lexer = DQUOTE then next_l lexer else lexer)"




text \<open>
  The opener that \<open>scan_start\<close> accepts, on the code points at the cursor: white space, an
  optional quote, the identifier, the same quote again, a newline. The result is whether
  the quote is a single quote, and the identifier.
\<close>

definition opener :: "platform \<Rightarrow> int list \<Rightarrow> (bool \<times> int list) option" where
  "opener P cs =
     (let cs1 = dropWhile (iswspace P) cs;
          quote = (case cs1 of
                     [] \<Rightarrow> []
                   | c # cs' \<Rightarrow> if c = SQUOTE \<or> c = DQUOTE then [c] else []);
          cs2 = drop (length quote) cs1;
          ident = identifier_prefix P cs2;
          cs3 = drop (length ident) cs2
      in if ident \<noteq> [] \<and> take (length quote + 1) cs3 = quote @ [NEWLINE]
         then Some (quote = [SQUOTE], ident)
         else None)"

text \<open>
  The opener as the claim C5 words it: the identifier is
  a letter, \<open>_\<close> or a byte 0x80-0xFF, then letters, digits and \<open>_\<close>; the bytes 0x80-0xFF in
  the first position only.
\<close>

definition claimed_ident_first :: "int \<Rightarrow> bool" where
  "claimed_ident_first c \<longleftrightarrow>
     c = UNDERSCORE \<or> (65 \<le> c \<and> c \<le> 90) \<or> (97 \<le> c \<and> c \<le> 122) \<or> (128 \<le> c \<and> c \<le> 255)"

definition claimed_ident_rest :: "int \<Rightarrow> bool" where
  "claimed_ident_rest c \<longleftrightarrow>
     c = UNDERSCORE \<or> (65 \<le> c \<and> c \<le> 90) \<or> (97 \<le> c \<and> c \<le> 122) \<or> (48 \<le> c \<and> c \<le> 57)"

definition claimed_opener :: "platform \<Rightarrow> int list \<Rightarrow> (bool \<times> int list) option" where
  "claimed_opener P cs =
     (let cs1 = dropWhile (iswspace P) cs;
          quote = (case cs1 of
                     [] \<Rightarrow> []
                   | c # cs' \<Rightarrow> if c = SQUOTE \<or> c = DQUOTE then [c] else []);
          cs2 = drop (length quote) cs1;
          ident = (case cs2 of
                     [] \<Rightarrow> []
                   | c # cs' \<Rightarrow> if claimed_ident_first c
                                then c # takeWhile claimed_ident_rest cs' else []);
          cs3 = drop (length ident) cs2
      in if ident \<noteq> [] \<and> take (length quote + 1) cs3 = quote @ [NEWLINE]
         then Some (quote = [SQUOTE], ident)
         else None)"

text \<open>A locale that classifies the Latin-1 letters 0xC0-0xFF as alphabetic.\<close>

definition latin1_locale :: platform where
  "latin1_locale = \<lparr>alpha_class = (\<lambda>c. 192 \<le> c \<and> c \<le> 255), space_class = (\<lambda>c. False),
                     char_signed = True\<rparr>"

text \<open>The bytes of an ASCII letter, a digit or the underscore.\<close>

definition ascii_ident_char :: "cchar \<Rightarrow> bool" where
  "ascii_ident_char b \<longleftrightarrow>
     b = 95 \<or> (48 \<le> b \<and> b \<le> 57) \<or> (65 \<le> b \<and> b \<le> 90) \<or> (97 \<le> b \<and> b \<le> 122)"

definition delimiter_ok :: "Scanner \<Rightarrow> bool" where
  "delimiter_ok scanner \<longleftrightarrow>
     string_wf (delimiter scanner) \<and> list_all ascii_ident_char (string_bytes (delimiter scanner))"

text \<open>The claim C9: the same, and at most 255 bytes.\<close>

definition delimiter_ok_255 :: "Scanner \<Rightarrow> bool" where
  "delimiter_ok_255 scanner \<longleftrightarrow> delimiter_ok scanner \<and> unat (len (delimiter scanner)) \<le> 255"



section \<open>Lemmas\<close>

subsection \<open>Memory, strings and serialization\<close>

lemma bindF_Inr [simp]: "bindF (Inr x) f = f x"
  by (simp add: bindF_def)

lemma bindF_Inl [simp]: "bindF (Inl e) f = Inl e"
  by (simp add: bindF_def)

lemma length_realloc [simp]: "length (realloc obj n) = n"
  by (simp add: realloc_def)

lemma string_wf_clear:
  "string_wf string \<Longrightarrow> string_wf (string_clear string)"
  by (simp add: string_wf_def string_clear_def)

lemma string_clear_len [simp]: "len (string_clear string) = 0"
  by (simp add: string_clear_def)

lemma string_clear_cap [simp]: "cap (string_clear string) = cap string"
  by (simp add: string_clear_def)

lemma string_clear_bytes [simp]: "string_bytes (string_clear string) = []"
  by (simp add: string_bytes_def)

text \<open>Growing a well-formed string to a new length below \<open>2^32 - 1\<close>.\<close>

lemma string_grow_wf:
  assumes "string_wf string" and "unat n < 2 ^ 32 - 1"
  shows "\<exists>string'. string_grow (string\<lparr>len := n\<rparr>) n = Inr string' \<and> string_wf string'
           \<and> len string' = n"
proof (cases "cap string < n")
  case True
  have n1: "unat (n + 1) = unat n + 1"
    using assms(2) by (simp add: unat_word_ariths)
  have d1: "unat (n + 1 - n) = 1"
    by simp
  show ?thesis
    using True n1 d1
    by (simp add: string_grow_def string_resize_def memset0_def Let_def string_wf_def)
next
  case False
  then have "n \<le> cap string" by simp
  then show ?thesis
    using assms(1) False by (simp add: string_grow_def string_wf_def)
qed

lemma memcpy_into_string:
  assumes "string_wf string" and "soff + unat (len string) \<le> length src"
  shows "\<exists>d. memcpy (data string) 0 src soff (unat (len string)) = Inr d
           \<and> string_wf (string\<lparr>data := d\<rparr>)
           \<and> string_bytes (string\<lparr>data := d\<rparr>) = take (unat (len string)) (drop soff src)"
proof -
  have le: "unat (len string) \<le> unat (cap string)"
    using assms(1) by (simp add: string_wf_def word_le_nat_alt)
  then have "unat (len string) \<le> length (data string)"
    using assms(1) by (simp add: string_wf_def)
  then show ?thesis
    using assms le
    by (auto simp: memcpy_def load_bytes_def store_bytes_def string_wf_def string_bytes_def
        min_def)
qed

lemma deserialize_zero:
  "deserialize t buffer 0 =
     Inr (t\<lparr>is_nowdoc := False, did_start := False, did_end := False,
            delimiter := string_clear (delimiter t)\<rparr>)"
  by (simp add: deserialize_def)

lemma deserialize_nonzero:
  assumes wf: "string_wf (delimiter t)" and n: "3 \<le> unat n" "unat n \<le> length buffer"
  shows "\<exists>s'. deserialize t buffer n = Inr s'
           \<and> is_nowdoc s' = char_to_bool (buffer ! 0)
           \<and> did_start s' = char_to_bool (buffer ! 1)
           \<and> did_end s' = char_to_bool (buffer ! 2)
           \<and> len (delimiter s') = n - 3
           \<and> string_bytes (delimiter s') = take (unat n - 3) (drop 3 buffer)
           \<and> string_wf (delimiter s')"
proof -
  have n0: "n \<noteq> 0" using n(1) by auto
  have u3: "unat (n - 3) = unat n - 3"
    using n(1) by (simp add: unat_sub word_le_nat_alt)
  have "unat n < 2 ^ 32" using unsigned_less [of n, where ?'a = nat] by simp
  then have small: "unat (n - 3) < 2 ^ 32 - 1" using u3 n(1) by simp
  obtain string' where g: "string_grow ((delimiter t)\<lparr>len := n - 3\<rparr>) (n - 3) = Inr string'"
      and wf': "string_wf string'" and l': "len string' = n - 3"
    using string_grow_wf [OF wf small] by blast
  have "3 + unat (len string') \<le> length buffer"
    using l' u3 n by simp
  from memcpy_into_string [OF wf' this]
  obtain d where m: "memcpy (data string') 0 buffer 3 (unat (len string')) = Inr d"
      and wfd: "string_wf (string'\<lparr>data := d\<rparr>)"
      and bd: "string_bytes (string'\<lparr>data := d\<rparr>) = take (unat (len string')) (drop 3 buffer)"
    by blast
  have lb: "0 < length buffer" "1 < length buffer" "2 < length buffer"
    using n by auto
  show ?thesis
    using n0 g m wfd bd l' u3 lb
    by (simp add: deserialize_def load_byte_def Let_def)
qed


lemma take3_update:
  "3 \<le> length xs \<Longrightarrow> take 3 (xs[0 := a, Suc 0 := b, 2 := c]) = [a, b, c]"
proof -
  assume "3 \<le> length xs"
  then obtain x y z ws where "xs = x # y # z # ws"
    by (cases xs; cases "tl xs"; cases "tl (tl xs)") auto
  then show ?thesis
    by (simp add: numeral_2_eq_2 numeral_3_eq_3)
qed

lemma serialize_zero:
  assumes "1022 \<le> unat (len (delimiter s))" and "unat (len (delimiter s)) < 2 ^ 32 - 2"
  shows "serialize s buffer = Inr (0, buffer)"
proof -
  have "unat (len (delimiter s) + 2) = unat (len (delimiter s)) + 2"
    using assms(2) by (simp add: unat_word_ariths)
  then have "(1024 :: u32) \<le> len (delimiter s) + 2"
    using assms(1) by (simp add: word_le_nat_alt)
  then show ?thesis
    by (simp add: serialize_def TREE_SITTER_SERIALIZATION_BUFFER_SIZE_def)
qed

lemma serialize_nonzero:
  assumes wf: "string_wf (delimiter s)"
    and fit: "unat (len (delimiter s)) + 3 \<le> length buffer" "length buffer \<le> 1024"
  shows "serialize s buffer =
           Inr (len (delimiter s) + 3,
                [bool_to_char (is_nowdoc s), bool_to_char (did_start s), bool_to_char (did_end s)]
                @ string_bytes (delimiter s)
                @ drop (3 + unat (len (delimiter s))) buffer)"
    and "unat (len (delimiter s) + 3) = unat (len (delimiter s)) + 3"
proof -
  let ?n = "unat (len (delimiter s))"
  have small: "?n < 1022" using fit by simp
  have u2: "unat (len (delimiter s) + 2) = ?n + 2"
    using small by (simp add: unat_word_ariths)
  show u3: "unat (len (delimiter s) + 3) = ?n + 3"
    using small by (simp add: unat_word_ariths)
  have guard: "\<not> (1024 :: u32) \<le> len (delimiter s) + 2"
    using u2 small by (simp add: word_le_nat_alt)
  have "?n \<le> unat (cap (delimiter s))"
    using wf by (simp add: string_wf_def word_le_nat_alt)
  then have ld: "?n \<le> length (data (delimiter s))"
    using wf by (simp add: string_wf_def)
  have l3: "3 \<le> length buffer" using fit by simp
  then have lb: "buffer \<noteq> []" "Suc 0 < length buffer" "2 < length buffer"
    by auto
  show "serialize s buffer =
           Inr (len (delimiter s) + 3,
                [bool_to_char (is_nowdoc s), bool_to_char (did_start s), bool_to_char (did_end s)]
                @ string_bytes (delimiter s)
                @ drop (3 + unat (len (delimiter s))) buffer)"
    using guard ld lb fit take3_update [OF l3]
    by (simp add: serialize_def TREE_SITTER_SERIALIZATION_BUFFER_SIZE_def store_byte_def
        memcpy_def load_bytes_def store_bytes_def string_bytes_def min_def)
qed

lemma char_to_bool_bool_to_char [simp]: "char_to_bool (bool_to_char b) = b"
  by (simp add: char_to_bool_def bool_to_char_def)

lemma heredoc_EOF_wf: "string_wf (delimiter heredoc_EOF)"
  by (simp add: heredoc_EOF_def string_wf_def)

lemma create_wf: "string_wf (delimiter create)"
  by (simp add: create_def string_new_def string_wf_def)

lemma serialize_Inr_fits:
  assumes "serialize s buffer = Inr (n, buffer')" and "n \<noteq> 0"
  shows "3 + unat (len (delimiter s)) \<le> length buffer \<and> n = len (delimiter s) + 3"
  using assms
  by (auto simp: serialize_def store_byte_def memcpy_def load_bytes_def store_bytes_def
      bindF_def split: if_splits sum.splits)

lemma deserialize_Inr_len:
  assumes "deserialize t buffer n = Inr s'" and "n \<noteq> 0"
  shows "len (delimiter s') = n - 3"
proof -
  have g: "string_grow d m = Inr d' \<Longrightarrow> len d' = len d" for d d' m
    by (auto simp: string_grow_def string_resize_def Let_def bindF_def
        split: if_splits sum.splits)
  show ?thesis
    using assms
    by (auto simp: deserialize_def Let_def bindF_def split: sum.splits dest!: g)
qed

lemma deserialize_wrapped:
  assumes b: "3 \<le> length buffer" "length buffer \<le> 1024"
    and wf: "string_wf (delimiter t)" and c: "cap (delimiter t) < 0xFFFFFFFE"
  shows "deserialize t buffer 1 = Inl (OutOfBounds 3 (2 ^ 32 - 2))"
    and "deserialize t buffer 2 = Inl (OutOfBounds (2 ^ 32 - 1) 1)"
proof -
  have lb: "buffer \<noteq> []" "Suc 0 < length buffer" "2 < length buffer"
    using b by auto
  have m: "(1 :: u32) - 3 = 0xFFFFFFFE" "(2 :: u32) - 3 = 0xFFFFFFFF"
    by simp_all
  have c1: "cap (delimiter t) < 0xFFFFFFFE" "cap (delimiter t) < 0xFFFFFFFF"
    using c by (simp_all add: word_less_nat_alt)
  show "deserialize t buffer 1 = Inl (OutOfBounds 3 (2 ^ 32 - 2))"
    using lb c1 b
    by (simp only: deserialize_def m)
       (simp add: load_byte_def Let_def string_grow_def string_resize_def
        memset0_def memcpy_def load_bytes_def)
  show "deserialize t buffer 2 = Inl (OutOfBounds (2 ^ 32 - 1) 1)"
    using lb c1 b
    by (simp only: deserialize_def m)
       (simp add: load_byte_def Let_def string_grow_def string_resize_def
        memset0_def memcpy_def load_bytes_def realloc_def)
qed

subsection \<open>The lexer only moves forward\<close>

lemma lexer_le_refl [simp]: "lexer_le lexer lexer"
  by (simp add: lexer_le_def)

lemma lexer_le_trans: "lexer_le a b \<Longrightarrow> lexer_le b c \<Longrightarrow> lexer_le a c"
  unfolding lexer_le_def
  by (elim conjE, intro conjI) (auto simp: add.commute)

lemma lexer_le_advance: "lexer_le lexer (advance lexer s)"
  by (cases "input lexer") (auto simp: lexer_le_def advance_def)

lemma lexer_le_next_l: "lexer_le lexer (next_l lexer)"
  by (simp add: next_l_def lexer_le_advance)

lemma lexer_le_skip_l: "lexer_le lexer (skip_l lexer)"
  by (simp add: skip_l_def lexer_le_advance)

lemma lexer_le_stop_l: "lexer_le lexer (stop_l lexer)"
  by (simp add: lexer_le_def stop_l_def mark_end_def)

lemma lexer_le_set_symbol: "lexer_le lexer (set_symbol t lexer)"
  by (simp add: lexer_le_def set_symbol_def)

lemmas lexer_le_ops = lexer_le_next_l lexer_le_skip_l lexer_le_stop_l lexer_le_set_symbol

lemma lexer_le_step1: "lexer_le a b \<Longrightarrow> lexer_le a (next_l b)"
  "lexer_le a b \<Longrightarrow> lexer_le a (skip_l b)"
  "lexer_le a b \<Longrightarrow> lexer_le a (stop_l b)"
  "lexer_le a b \<Longrightarrow> lexer_le a (set_symbol t b)"
  by (blast intro: lexer_le_trans lexer_le_ops)+

lemma lexer_le_scan_delimiter_from:
  "lexer_le lexer (snd (scan_delimiter_from P scanner index lexer))"
proof (induction P scanner index lexer rule: scan_delimiter_from.induct)
  case (1 P scanner index lexer)
  show ?case
  proof (cases "index < unat (len (delimiter scanner))
                \<and> char_to_int P (data (delimiter scanner) ! index) = peek lexer")
    case True
    then have "lexer_le (next_l lexer) (snd (scan_delimiter_from P scanner (index + 1) (next_l lexer)))"
      using "1.IH" by simp
    then have "lexer_le lexer (snd (scan_delimiter_from P scanner (index + 1) (next_l lexer)))"
      by (rule lexer_le_trans [OF lexer_le_next_l])
    then show ?thesis
      using True by (subst scan_delimiter_from.simps) simp
  next
    case False
    then show ?thesis
      by (subst scan_delimiter_from.simps) auto
  qed
qed

lemma lexer_le_scan_delimiter:
  "scan_delimiter P scanner lexer = (m, lexer') \<Longrightarrow> lexer_le lexer lexer'"
  using lexer_le_scan_delimiter_from [of lexer P scanner 0] by (simp add: scan_delimiter_def)

lemma lexer_le_dollar: "lexer_le lexer (step_lexer (scan_body_dollar scanner d lexer))"
  by (simp add: scan_body_dollar_def Let_def lexer_le_ops lexer_le_step1)

lemma lexer_le_interpolation:
  "lexer_le lexer (step_lexer (scan_body_interpolation scanner d lexer))"
  unfolding scan_body_interpolation_def Let_def
  by (auto intro!: lexer_le_trans [OF _ lexer_le_dollar] lexer_le_step1 lexer_le_ops)

lemma lexer_le_close:
  "lexer_le lexer (step_lexer (scan_body_close P scanner d lexer))"
proof -
  define lexer1 where "lexer1 = (if d then next_l (stop_l lexer)
                   else if peek lexer = NEWLINE
                   then (if did_end scanner then skip_l lexer else stop_l (next_l lexer))
                   else lexer)"
  obtain m lexer2 where sd: "scan_delimiter P scanner lexer1 = (m, lexer2)"
    by (cases "scan_delimiter P scanner lexer1")
  have "lexer_le lexer lexer1"
    by (simp add: lexer1_def lexer_le_ops lexer_le_step1)
  then have l2: "lexer_le lexer lexer2"
    using lexer_le_scan_delimiter [OF sd] by (rule lexer_le_trans)
  show ?thesis
    using l2 sd
    by (simp add: scan_body_close_def Let_def lexer1_def [symmetric] lexer_le_step1)
qed

lemma lexer_le_step:
  "lexer_le lexer (step_lexer (scan_body_step P scanner d lexer))"
  by (simp add: scan_body_step_def lexer_le_interpolation lexer_le_close lexer_le_ops
      lexer_le_step1)

lemma lexer_le_loop:
  "lexer_le lexer (snd (snd (scan_body_loop P scanner d lexer)))"
proof (induction P scanner d lexer rule: scan_body_loop.induct)
  case (1 P scanner d lexer)
  show ?case
  proof (cases "scan_body_step P scanner d lexer")
    case (Return r scanner' lexer')
    then show ?thesis
      using lexer_le_step [of lexer P scanner d]
      by (subst scan_body_loop.simps) simp
  next
    case (Continue d' lexer')
    then have "lexer_le lexer lexer'"
      using lexer_le_step [of lexer P scanner d] by simp
    moreover have "lexer_le lexer' (snd (snd (scan_body_loop P scanner d' lexer')))"
      using "1.IH" Continue by simp
    ultimately show ?thesis
      using Continue by (subst scan_body_loop.simps) (simp add: lexer_le_trans)
  qed
qed


lemma peek_Cons: "input lexer = c # cs \<Longrightarrow> peek lexer = c"
  by (simp add: peek_def)

lemma next_l_Cons:
  "input lexer = c # cs \<Longrightarrow> next_l lexer = lexer\<lparr>input := cs, pos := pos lexer + 1\<rparr>"
  by (simp add: next_l_def advance_def)

lemma scan_body_after_loop:
  "scan_body_after P scanner n d lexer = Some (d', lexer') \<Longrightarrow>
     scan_body_loop P scanner d lexer = scan_body_loop P scanner d' lexer'"
proof (induction n arbitrary: d lexer)
  case 0
  then show ?case by simp
next
  case (Suc n)
  then obtain d1 lexer1 where st: "scan_body_step P scanner d lexer = Continue d1 lexer1"
    and rest: "scan_body_after P scanner n d1 lexer1 = Some (d', lexer')"
    by (auto split: body_step.splits)
  have "scan_body_loop P scanner d lexer = scan_body_loop P scanner d1 lexer1"
    using st by (subst scan_body_loop.simps) simp
  then show ?case
    using Suc.IH [OF rest] by simp
qed

lemma scan_body_after_Suc:
  "scan_body_after P scanner (Suc n) d lexer =
     (case scan_body_after P scanner n d lexer of
        None \<Rightarrow> None
      | Some (d1, lexer1) \<Rightarrow>
          (case scan_body_step P scanner d1 lexer1 of
             Return result scanner' lexer' \<Rightarrow> None
           | Continue d' lexer' \<Rightarrow> Some (d', lexer')))"
proof (induction n arbitrary: d lexer)
  case 0
  show ?case by (simp split: body_step.splits)
next
  case (Suc n)
  show ?case
  proof (cases "scan_body_step P scanner d lexer")
    case (Return r s' l')
    then show ?thesis by simp
  next
    case (Continue d1 lexer1)
    then show ?thesis
      using Suc.IH [of d1 lexer1] by simp
  qed
qed

lemma consumed_pos:
  assumes "lexer_le lexer lexer'" and "length (input lexer') < length (input lexer)"
  shows "pos lexer < pos lexer'"
  using assms by (auto simp: lexer_le_def intro: ccontr)

lemma scan_body_step_first:
  assumes "scan_body_step P scanner False lexer = Continue d' lexer'"
  shows "length (input lexer') < length (input lexer)
         \<or> (did_end scanner
            \<and> \<not> ((peek lexer = LBRACE \<or> peek lexer = DOLLAR) \<and> \<not> is_nowdoc scanner))"
proof -
  have nz: "peek lexer \<noteq> 0"
    using assms by (auto simp: scan_body_step_def split: if_splits)
  then obtain c cs where ne: "input lexer = c # cs" using peek_nonzero [of lexer] by auto
  consider (esc) "peek lexer = BACKSLASH"
    | (interp) "peek lexer \<noteq> BACKSLASH" "(peek lexer = LBRACE \<or> peek lexer = DOLLAR) \<and> \<not> is_nowdoc scanner"
    | (close) "peek lexer \<noteq> BACKSLASH" "\<not> ((peek lexer = LBRACE \<or> peek lexer = DOLLAR) \<and> \<not> is_nowdoc scanner)"
        "did_end scanner"
    | (nl) "peek lexer \<noteq> BACKSLASH" "\<not> ((peek lexer = LBRACE \<or> peek lexer = DOLLAR) \<and> \<not> is_nowdoc scanner)"
        "\<not> did_end scanner" "peek lexer = NEWLINE"
    | (other) "peek lexer \<noteq> BACKSLASH" "\<not> ((peek lexer = LBRACE \<or> peek lexer = DOLLAR) \<and> \<not> is_nowdoc scanner)"
        "\<not> (did_end scanner \<or> peek lexer = NEWLINE)"
    by blast
  then show ?thesis
  proof cases
    case esc
    then show ?thesis using assms ne by (auto simp: scan_body_step_def)
  next
    case interp
    then have "scan_body_interpolation scanner False lexer = Continue d' lexer'"
      using assms nz by (simp add: scan_body_step_def)
    from scan_body_interpolation_Continue [OF this] interp show ?thesis by auto
  next
    case close
    then show ?thesis by simp
  next
    case nl
    then have c: "scan_body_close P scanner False lexer = Continue d' lexer'"
      using assms nz by (auto simp: scan_body_step_def split: if_splits)
    obtain m lexer2 where sd: "scan_delimiter P scanner (stop_l (next_l lexer)) = (m, lexer2)"
      by (cases "scan_delimiter P scanner (stop_l (next_l lexer))")
    have "length (input lexer2) \<le> length (input (stop_l (next_l lexer)))"
      using sd by (rule input_scan_delimiter)
    then have l2: "length (input lexer2) < length (input lexer)"
      using ne by simp
    have "length (input lexer') \<le> length (input lexer2)"
      using c sd nl
      by (auto simp: scan_body_close_def Let_def split: if_splits)
    then show ?thesis using l2 by simp
  next
    case other
    then show ?thesis using assms nz ne by (auto simp: scan_body_step_def)
  qed
qed

lemma body_inv_step:
  assumes inv: "body_inv scanner lexer0 d lexer"
    and st: "scan_body_step P scanner d lexer = Continue d' lexer'"
  shows "body_inv scanner lexer0 d' lexer'"
proof -
  have d': "d'" and dec: "d \<Longrightarrow> length (input lexer') < length (input lexer)"
    using scan_body_step_Continue [OF st] by auto
  have le: "lexer_le lexer lexer'"
    using lexer_le_step [of lexer P scanner d] st by simp
  have le0: "lexer_le lexer0 lexer'"
    using inv le by (auto simp: body_inv_def intro: lexer_le_trans)
  show ?thesis
  proof (cases d)
    case True
    then have "pos lexer < pos lexer'"
      using consumed_pos [OF le] dec by simp
    moreover have "pos lexer0 \<le> pos lexer"
      using inv by (simp add: body_inv_def lexer_le_def)
    ultimately show ?thesis
      using le0 d' by (simp add: body_inv_def)
  next
    case False
    then have eq: "lexer = lexer0" using inv by (simp add: body_inv_def)
    from scan_body_step_first [of P scanner lexer d' lexer'] st False
    have "length (input lexer') < length (input lexer)
         \<or> (did_end scanner
            \<and> \<not> ((peek lexer = LBRACE \<or> peek lexer = DOLLAR) \<and> \<not> is_nowdoc scanner))"
      by simp
    then show ?thesis
      using le0 d' eq consumed_pos [OF le] by (auto simp: body_inv_def)
  qed
qed

lemma body_inv_after:
  "scan_body_after P scanner n False lexer0 = Some (d, lexer) \<Longrightarrow> body_inv scanner lexer0 d lexer"
proof (induction n arbitrary: d lexer)
  case 0
  then show ?case by (simp add: body_inv_def)
next
  case (Suc n)
  then obtain d1 lexer1 where a: "scan_body_after P scanner n False lexer0 = Some (d1, lexer1)"
    and st: "scan_body_step P scanner d1 lexer1 = Continue d lexer"
    by (auto simp: scan_body_after_Suc simp del: scan_body_after.simps
        split: option.splits body_step.splits)
  from body_inv_step [OF Suc.IH [OF a] st] show ?case .
qed


lemma stop_l_fields [simp]:
  "pos (stop_l lexer) = pos lexer" "token_end (stop_l lexer) = Some (pos lexer)"
  "result_symbol (stop_l lexer) = result_symbol lexer" "token_start (stop_l lexer) = token_start lexer"
  by (simp_all add: stop_l_def mark_end_def)

lemma set_symbol_fields [simp]:
  "pos (set_symbol t lexer) = pos lexer" "token_end (set_symbol t lexer) = token_end lexer"
  "result_symbol (set_symbol t lexer) = t" "token_start (set_symbol t lexer) = token_start lexer"
  by (simp_all add: set_symbol_def)

lemma next_l_fields [simp]:
  "token_end (next_l lexer) = token_end lexer" "result_symbol (next_l lexer) = result_symbol lexer"
  by (simp_all add: next_l_def advance_def split: list.splits)

lemma skip_l_fields [simp]:
  "token_end (skip_l lexer) = token_end lexer" "result_symbol (skip_l lexer) = result_symbol lexer"
  by (simp_all add: skip_l_def advance_def split: list.splits)


lemma scan_body_dollar_symbol:
  "scan_body_dollar scanner d lexer = Return r scanner' lexer' \<Longrightarrow>
     result_symbol lexer' = HEREDOC_BODY"
  by (auto simp: scan_body_dollar_def Let_def split: if_splits)

lemma scan_body_close_symbol:
  assumes "scan_body_close P scanner d lexer = Return r scanner' lexer'"
  shows "result_symbol lexer' \<noteq> EMBEDDED_OPENING_BRACE"
proof -
  define lexer1 where "lexer1 = (if d then next_l (stop_l lexer)
                   else if peek lexer = NEWLINE
                   then (if did_end scanner then skip_l lexer else stop_l (next_l lexer))
                   else lexer)"
  obtain m lexer2 where sd: "scan_delimiter P scanner lexer1 = (m, lexer2)"
    by (cases "scan_delimiter P scanner lexer1")
  show ?thesis
    using assms sd
    by (auto simp: scan_body_close_def Let_def lexer1_def [symmetric] split: if_splits)
qed

lemma scan_body_interpolation_brace:
  assumes "scan_body_interpolation scanner d lexer = Return r scanner' lexer'"
    and "result_symbol lexer' = EMBEDDED_OPENING_BRACE"
  shows "\<not> d \<and> (\<exists>c rest. input lexer = LBRACE # DOLLAR # c # rest \<and> is_identifier_start_char c)"
proof -
  have a: "peek lexer = LBRACE" "peek (next_l (stop_l lexer)) = DOLLAR" "\<not> d"
    "is_identifier_start_char (peek (next_l (stop_l (next_l (stop_l lexer)))))"
    using assms
    by (auto simp: scan_body_interpolation_def Let_def split: if_splits
        dest: scan_body_dollar_symbol)
  have z: "\<not> is_identifier_start_char 0"
    by (simp add: is_identifier_start_char_def)
  show ?thesis
    using a z by (auto simp: peek_def split: list.splits)
qed

lemma scan_body_step_brace:
  assumes "scan_body_step P scanner d lexer = Return r scanner' lexer'"
    and "r" and "result_symbol lexer' = EMBEDDED_OPENING_BRACE"
  shows "\<not> is_nowdoc scanner \<and> \<not> d
         \<and> (\<exists>c rest. input lexer = LBRACE # DOLLAR # c # rest \<and> is_identifier_start_char c)"
  using assms
  by (auto simp: scan_body_step_def split: if_splits
      dest: scan_body_interpolation_brace scan_body_close_symbol)

lemma scan_body_step_at_brace:
  assumes "\<not> is_nowdoc scanner" and "input lexer = LBRACE # DOLLAR # c # rest"
    and "is_identifier_start_char c"
  shows "scan_body_step P scanner False lexer =
           Return True scanner
             (lexer\<lparr>input := c # rest, pos := pos lexer + 2, token_end := Some (pos lexer + 1),
                    result_symbol := EMBEDDED_OPENING_BRACE\<rparr>)"
  using assms
  by (simp add: scan_body_step_def scan_body_interpolation_def Let_def peek_def
      next_l_def advance_def stop_l_def mark_end_def set_symbol_def)

lemma scan_body_step_at_dollar:
  assumes "\<not> is_nowdoc scanner" and "input lexer = DOLLAR # c # rest"
    and "is_identifier_start_char c"
  shows "scan_body_step P scanner d lexer =
           Return d scanner
             (lexer\<lparr>input := c # rest, pos := pos lexer + 1, token_end := Some (pos lexer),
                    result_symbol := HEREDOC_BODY\<rparr>)"
  using assms
  by (simp add: scan_body_step_def scan_body_interpolation_def scan_body_dollar_def Let_def
      peek_def next_l_def advance_def stop_l_def mark_end_def set_symbol_def)

lemma scan_body_loop_Return:
  "scan_body_step P scanner d lexer = Return r scanner' lexer' \<Longrightarrow>
     scan_body_loop P scanner d lexer = (r, scanner', lexer')"
  by (subst scan_body_loop.simps) simp

lemma scan_body_loop_Continue:
  "scan_body_step P scanner d lexer = Continue d' lexer' \<Longrightarrow>
     scan_body_loop P scanner d lexer = scan_body_loop P scanner d' lexer'"
  by (subst scan_body_loop.simps) simp

lemma scan_body_loop_advanced_no_brace_aux:
  "d \<Longrightarrow> fst (scan_body_loop P scanner d lexer) \<Longrightarrow>
     result_symbol (snd (snd (scan_body_loop P scanner d lexer))) \<noteq> EMBEDDED_OPENING_BRACE"
proof (induction P scanner d lexer rule: scan_body_loop.induct)
  case (1 P scanner d lexer)
  show ?case
  proof (cases "scan_body_step P scanner d lexer")
    case (Return r1 s1 l1)
    have eq: "scan_body_loop P scanner d lexer = (r1, s1, l1)"
      using Return by (rule scan_body_loop_Return)
    then have "r1" using "1.prems"(2) by simp
    then have "result_symbol l1 \<noteq> EMBEDDED_OPENING_BRACE"
      using scan_body_step_brace [OF Return] "1.prems"(1) by blast
    then show ?thesis using eq by simp
  next
    case (Continue d1 l1)
    have d1: "d1" using scan_body_step_Continue [OF Continue] by simp
    have eq: "scan_body_loop P scanner d lexer = scan_body_loop P scanner d1 l1"
      using Continue by (rule scan_body_loop_Continue)
    have "fst (scan_body_loop P scanner d1 l1)"
      using "1.prems"(2) eq by simp
    from "1.IH" [OF Continue d1 this] show ?thesis
      using eq by simp
  qed
qed

lemma scan_body_loop_advanced_no_brace:
  "scan_body_loop P scanner True lexer = (r, scanner', lexer') \<Longrightarrow> r \<Longrightarrow>
     result_symbol lexer' \<noteq> EMBEDDED_OPENING_BRACE"
  using scan_body_loop_advanced_no_brace_aux [of True P scanner lexer] by simp

subsection \<open>The closing delimiter and the outcomes of a body scan\<close>

lemma length_delimiter_codes:
  "string_wf (delimiter scanner) \<Longrightarrow>
     length (delimiter_codes P scanner) = unat (len (delimiter scanner))"
  by (simp add: delimiter_codes_def string_bytes_def string_wf_def word_le_nat_alt)

lemma delimiter_codes_nth:
  "string_wf (delimiter scanner) \<Longrightarrow> index < unat (len (delimiter scanner)) \<Longrightarrow>
     delimiter_codes P scanner ! index = char_to_int P (data (delimiter scanner) ! index)"
  by (simp add: delimiter_codes_def string_bytes_def string_wf_def word_le_nat_alt)

lemma scan_delimiter_from_match:
  "scan_delimiter_from P scanner index lexer = (True, lexer') \<Longrightarrow>
         index \<le> unat (len (delimiter scanner)) \<Longrightarrow>
         string_wf (delimiter scanner) \<Longrightarrow> NUL \<notin> set (delimiter_codes P scanner) \<Longrightarrow>
           input lexer = drop index (delimiter_codes P scanner) @ input lexer'
           \<and> lexer' = lexer\<lparr>input := input lexer',
                             pos := pos lexer + (unat (len (delimiter scanner)) - index)\<rparr>"
proof (induction P scanner index lexer rule: scan_delimiter_from.induct)
  case (1 P scanner index lexer)
  note wf = "1.prems"(3) and nz = "1.prems"(4)
  let ?n = "unat (len (delimiter scanner))"
  let ?cs = "delimiter_codes P scanner"
  have ln: "length ?cs = ?n" using wf by (rule length_delimiter_codes)
  show ?case
  proof (cases "index < ?n")
    case False
    then have "lexer' = lexer"
      using "1.prems"(1) by (subst (asm) scan_delimiter_from.simps) simp
    then show ?thesis
      using False "1.prems"(2) ln by simp
  next
    case True
    let ?c = "char_to_int P (data (delimiter scanner) ! index)"
    have eq: "?c = peek lexer"
      and rec: "scan_delimiter_from P scanner (index + 1) (next_l lexer) = (True, lexer')"
      using "1.prems"(1) True
      by (subst (asm) scan_delimiter_from.simps; simp split: if_splits)+
    have cn: "?cs ! index = ?c"
      using wf True by (rule delimiter_codes_nth)
    then have "?c \<in> set ?cs"
      using True ln by (metis nth_mem)
    then have "?c \<noteq> 0" using nz by auto
    then obtain cs where inp: "input lexer = ?c # cs"
      using eq peek_nonzero [of lexer] by (auto simp: peek_def)
    have nx: "next_l lexer = lexer\<lparr>input := cs, pos := pos lexer + 1\<rparr>"
      using inp by (rule next_l_Cons)
    have ih: "input (next_l lexer) = drop (index + 1) ?cs @ input lexer'
           \<and> lexer' = (next_l lexer)\<lparr>input := input lexer',
                             pos := pos (next_l lexer) + (?n - (index + 1))\<rparr>"
      using "1.IH" [OF True eq rec _ wf nz] True by simp
    have dr: "drop index ?cs = ?c # drop (index + 1) ?cs"
      using True ln cn by (metis Cons_nth_drop_Suc Suc_eq_plus1)
    have "lexer' = (next_l lexer)\<lparr>input := input lexer',
                             pos := pos (next_l lexer) + (?n - (index + 1))\<rparr>"
      using ih by blast
    also have "\<dots> = lexer\<lparr>input := input lexer', pos := pos lexer + (?n - index)\<rparr>"
      using nx True by simp
    finally have l': "lexer' = lexer\<lparr>input := input lexer', pos := pos lexer + (?n - index)\<rparr>" .
    have "input lexer = drop index ?cs @ input lexer'"
      using ih inp dr nx by simp
    then show ?thesis
      using l' by blast
  qed
qed


lemma scan_delimiter_match:
  assumes "scan_delimiter P scanner lexer = (True, lexer')"
    and "string_wf (delimiter scanner)" and "NUL \<notin> set (delimiter_codes P scanner)"
  shows "input lexer = delimiter_codes P scanner @ input lexer'"
    and "lexer' = lexer\<lparr>input := input lexer',
                          pos := pos lexer + length (delimiter_codes P scanner)\<rparr>"
  using scan_delimiter_from_match [of P scanner 0 lexer lexer'] assms
    length_delimiter_codes [of scanner P]
  by (simp_all add: scan_delimiter_def)

lemma scan_body_dollar_outcome:
  "scan_body_dollar scanner d lexer = Return r scanner' lexer' \<Longrightarrow>
     scanner' = scanner \<and> result_symbol lexer' = HEREDOC_BODY"
  by (auto simp: scan_body_dollar_def Let_def split: if_splits)

lemma scan_body_interpolation_outcome:
  "scan_body_interpolation scanner d lexer = Return r scanner' lexer' \<Longrightarrow>
     scanner' = scanner
     \<and> (result_symbol lexer' = HEREDOC_BODY \<or> result_symbol lexer' = EMBEDDED_OPENING_BRACE)"
  by (auto simp: scan_body_interpolation_def Let_def split: if_splits
      dest: scan_body_dollar_outcome)

text \<open>The returns of the branch of lines 256-323, one by one.\<close>

lemma scan_body_close_Return:
  assumes "scan_body_close P scanner d lexer = Return r scanner' lexer'"
  shows "r \<and>
    ((result_symbol lexer' = HEREDOC_BODY \<and> d
        \<and> scanner' = scanner\<lparr>did_start := True, did_end := True\<rparr>)
     \<or> (result_symbol lexer' = HEREDOC_END_NEWLINE \<and> \<not> d \<and> \<not> did_end scanner
        \<and> scanner' = scanner\<lparr>did_start := True, did_end := True\<rparr>)
     \<or> (result_symbol lexer' = HEREDOC_START_NEWLINE \<and> \<not> d \<and> \<not> did_start scanner
        \<and> scanner' = scanner\<lparr>did_start := True\<rparr>)
     \<or> (result_symbol lexer' = HEREDOC_END \<and> \<not> d \<and> did_end scanner
        \<and> scanner' = closed scanner
        \<and> (\<exists>lexer2. scan_delimiter P scanner (if peek lexer = NEWLINE then skip_l lexer else lexer)
                        = (True, lexer2)
              \<and> lexer' = set_symbol HEREDOC_END
                    (if peek lexer2 = SEMICOLON then next_l (stop_l lexer2) else stop_l lexer2)
              \<and> peek lexer' = NEWLINE)))"
proof -
  define lexer1 where "lexer1 = (if d then next_l (stop_l lexer)
                   else if peek lexer = NEWLINE
                   then (if did_end scanner then skip_l lexer else stop_l (next_l lexer))
                   else lexer)"
  obtain m lexer2 where sd: "scan_delimiter P scanner lexer1 = (m, lexer2)"
    by (cases "scan_delimiter P scanner lexer1")
  have l1: "\<not> d \<Longrightarrow> did_end scanner \<Longrightarrow>
              lexer1 = (if peek lexer = NEWLINE then skip_l lexer else lexer)"
    by (simp add: lexer1_def)
  show ?thesis
    using assms sd l1
    by (auto simp: scan_body_close_def Let_def lexer1_def [symmetric] closed_def
        split: if_splits)
qed




lemma scan_body_step_end:
  assumes "scan_body_step P scanner d lexer = Return r scanner' lexer'"
    and "r" and "result_symbol lexer' = HEREDOC_END"
  shows "\<not> d \<and> scan_body_close P scanner d lexer = Return r scanner' lexer'"
proof -
  consider (interp) "scan_body_interpolation scanner d lexer = Return r scanner' lexer'"
    | (close) "scan_body_close P scanner d lexer = Return r scanner' lexer'"
    using assms(1,2) by (auto simp: scan_body_step_def split: if_splits)
  then show ?thesis
  proof cases
    case interp
    from scan_body_interpolation_outcome [OF this] assms(3) show ?thesis by simp
  next
    case close
    from scan_body_close_Return [OF this] assms(3) close show ?thesis by auto
  qed
qed

lemma scan_body_loop_advanced_no_end:
  "d \<Longrightarrow> fst (scan_body_loop P scanner d lexer) \<Longrightarrow>
     result_symbol (snd (snd (scan_body_loop P scanner d lexer))) \<noteq> HEREDOC_END"
proof (induction P scanner d lexer rule: scan_body_loop.induct)
  case (1 P scanner d lexer)
  show ?case
  proof (cases "scan_body_step P scanner d lexer")
    case (Return r1 s1 l1)
    have eq: "scan_body_loop P scanner d lexer = (r1, s1, l1)"
      using Return by (rule scan_body_loop_Return)
    then have "r1" using "1.prems"(2) by simp
    then have "result_symbol l1 \<noteq> HEREDOC_END"
      using scan_body_step_end [OF Return] "1.prems"(1) by blast
    then show ?thesis using eq by simp
  next
    case (Continue d1 l1)
    have d1: "d1" using scan_body_step_Continue [OF Continue] by simp
    have eq: "scan_body_loop P scanner d lexer = scan_body_loop P scanner d1 l1"
      using Continue by (rule scan_body_loop_Continue)
    have "fst (scan_body_loop P scanner d1 l1)"
      using "1.prems"(2) eq by simp
    from "1.IH" [OF Continue d1 this] show ?thesis
      using eq by simp
  qed
qed

lemma scan_body_end_first_step:
  assumes "scan_body P scanner lexer = (True, scanner', lexer')"
    and "result_symbol lexer' = HEREDOC_END"
  shows "scan_body_close P scanner False lexer = Return True scanner' lexer'"
proof (cases "scan_body_step P scanner False lexer")
  case (Return r1 s1 l1)
  then have "scan_body_loop P scanner False lexer = (r1, s1, l1)"
    by (rule scan_body_loop_Return)
  then have "r1" "s1 = scanner'" "l1 = lexer'"
    using assms(1) by (simp_all add: scan_body_def)
  then show ?thesis
    using scan_body_step_end [OF Return] assms(2) by simp
next
  case (Continue d1 l1)
  have d1: "d1" using scan_body_step_Continue [OF Continue] by simp
  have "scan_body_loop P scanner False lexer = scan_body_loop P scanner d1 l1"
    using Continue by (rule scan_body_loop_Continue)
  then have "scan_body_loop P scanner d1 l1 = (True, scanner', lexer')"
    using assms(1) by (simp add: scan_body_def)
  then show ?thesis
    using scan_body_loop_advanced_no_end [OF d1, of P scanner l1] assms(2) by simp
qed


lemma peek_NEWLINE_Cons: "peek lexer = c \<Longrightarrow> c \<noteq> 0 \<Longrightarrow> \<exists>cs. input lexer = c # cs"
  by (cases "input lexer") (auto simp: peek_def)

lemma skip_l_Cons:
  "input lexer = c # cs \<Longrightarrow>
     skip_l lexer = lexer\<lparr>input := cs, pos := pos lexer + 1, token_start := pos lexer + 1\<rparr>"
  by (simp add: skip_l_def advance_def)

lemma closed_heredoc_EOF: "closed heredoc_EOF = create"
  by code_simp

lemma heredoc_EOF_end_scan:
  "scan_body c_locale heredoc_EOF (lexer_at [69, 79, 70, 10, 69, 79, 70, 59, 10] 3)
     = (True, create,
        \<lparr>input = [10], pos = 8, token_start = 4, token_end = Some 7,
          result_symbol = HEREDOC_END\<rparr>)"
  by code_simp

subsection \<open>The places of the \<open>$\<close> test\<close>

lemma scan_body_step_at_brace_dollar:
  assumes "\<not> is_nowdoc scanner" and "input lexer = LBRACE # DOLLAR # c # rest"
    and "is_identifier_start_char c"
  shows "scan_body_step P scanner True lexer =
           Return True scanner
             (lexer\<lparr>input := c # rest, pos := pos lexer + 2, token_end := Some (pos lexer),
                    result_symbol := HEREDOC_BODY\<rparr>)"
  using assms
  by (simp add: scan_body_step_def scan_body_interpolation_def scan_body_dollar_def Let_def
      peek_def next_l_def advance_def stop_l_def mark_end_def set_symbol_def)

lemma scan_body_step_at_brace_dollar_dollar:
  assumes "\<not> is_nowdoc scanner" and "input lexer = LBRACE # DOLLAR # DOLLAR # c # rest"
    and "is_identifier_start_char c"
  shows "scan_body_step P scanner False lexer =
           Return False scanner
             (lexer\<lparr>input := c # rest, pos := pos lexer + 3, token_end := Some (pos lexer + 1),
                    result_symbol := HEREDOC_BODY\<rparr>)"
  using assms
  by (simp add: scan_body_step_def scan_body_interpolation_def scan_body_dollar_def Let_def
      peek_def next_l_def advance_def stop_l_def mark_end_def set_symbol_def
      is_identifier_start_char_def)

text \<open>
  The \<open>$\<close> test of lines 242-249 succeeds in three places: at a \<open>$\<close> at the head of an
  iteration, behind a \<open>{\<close> when \<open>did_advance\<close> is set, and behind \<open>{$\<close> when it is not.
\<close>

lemma scan_body_step_dollar_site:
  assumes "\<not> is_nowdoc scanner" and "input lexer = before @ DOLLAR # c # rest"
    and "is_identifier_start_char c"
    and "before = [] \<or> (before = [LBRACE] \<and> d) \<or> (before = [LBRACE, DOLLAR] \<and> \<not> d)"
  shows "scan_body_step P scanner d lexer =
           Return d scanner
             (lexer\<lparr>input := c # rest, pos := pos lexer + length before + 1,
                    token_end := Some (pos lexer + (length before - 1)),
                    result_symbol := HEREDOC_BODY\<rparr>)"
proof -
  consider "before = []" | "before = [LBRACE]" "d" | "before = [LBRACE, DOLLAR]" "\<not> d"
    using assms(4) by blast
  then show ?thesis
  proof cases
    case 1
    then show ?thesis
      using scan_body_step_at_dollar [OF assms(1) _ assms(3), of lexer rest P d] assms(2)
      by simp
  next
    case 2
    then show ?thesis
      using scan_body_step_at_brace_dollar [OF assms(1) _ assms(3), of lexer rest P] assms(2)
      by (simp add: numeral_2_eq_2)
  next
    case 3
    then show ?thesis
      using scan_body_step_at_brace_dollar_dollar [OF assms(1) _ assms(3), of lexer rest P]
        assms(2)
      by (simp add: numeral_3_eq_3)
  qed
qed

text \<open>They are the only ones.\<close>

lemma scan_body_interpolation_Return:
  assumes "scan_body_interpolation scanner d lexer = Return r scanner' lexer'"
    and "result_symbol lexer' \<noteq> EMBEDDED_OPENING_BRACE"
  shows "\<exists>before c rest. input lexer = before @ DOLLAR # c # rest
           \<and> is_identifier_start_char c \<and> r = d \<and> scanner' = scanner
           \<and> (before = [] \<or> (before = [LBRACE] \<and> d) \<or> (before = [LBRACE, DOLLAR] \<and> \<not> d))"
proof -
  have dollar: "\<exists>c rest. input l = DOLLAR # c # rest \<and> is_identifier_start_char c
                  \<and> r = d \<and> scanner' = scanner"
    if "scan_body_dollar scanner d l = Return r scanner' lexer'" for l
  proof -
    from that have p: "peek l = DOLLAR" and i: "is_identifier_start_char (peek (next_l l))"
      and r: "r = d" "scanner' = scanner"
      by (auto simp: scan_body_dollar_def Let_def split: if_splits)
    obtain cs where l: "input l = DOLLAR # cs"
      using p peek_NEWLINE_Cons [of l DOLLAR] by auto
    have "peek (next_l l) \<noteq> 0"
      using i by (auto simp: is_identifier_start_char_def)
    then obtain c rest where "input (next_l l) = c # rest"
      using peek_nonzero by blast
    then have "cs = c # rest" "peek (next_l l) = c"
      using l by (simp_all add: next_l_Cons [OF l] peek_def)
    then show ?thesis
      using l i r by simp
  qed
  show ?thesis
  proof (cases "peek lexer = LBRACE")
    case False
    then have "scan_body_dollar scanner d (stop_l lexer) = Return r scanner' lexer'"
      using assms(1) by (simp add: scan_body_interpolation_def Let_def stop_l_def mark_end_def peek_def)
    from dollar [OF this] obtain c rest where "input lexer = [] @ DOLLAR # c # rest"
      "is_identifier_start_char c" "r = d" "scanner' = scanner"
      by (auto simp: stop_l_def mark_end_def)
    then show ?thesis by blast
  next
    case True
    then obtain cs where l: "input lexer = LBRACE # cs"
      using peek_NEWLINE_Cons [of lexer LBRACE] by auto
    let ?l1 = "next_l (stop_l lexer)"
    have i1: "input ?l1 = cs"
      using l by (simp add: next_l_def advance_def stop_l_def mark_end_def)
    have pk: "peek (stop_l lexer) = LBRACE"
      using True by (simp add: stop_l_def mark_end_def peek_def)
    show ?thesis
    proof (cases "peek ?l1 = DOLLAR \<and> \<not> d")
      case False
      then have "scan_body_dollar scanner d ?l1 = Return r scanner' lexer'"
        using assms(1) pk by (auto simp: scan_body_interpolation_def Let_def split: if_splits)
      from dollar [OF this] obtain c rest where "cs = DOLLAR # c # rest"
        "is_identifier_start_char c" "r = d" "scanner' = scanner"
        using i1 by auto
      moreover from this have d using False i1 by (simp add: peek_def)
      ultimately have "input lexer = [LBRACE] @ DOLLAR # c # rest \<and> is_identifier_start_char c
          \<and> r = d \<and> scanner' = scanner \<and> d"
        using l by simp
      then show ?thesis by blast
    next
      case True
      let ?l2 = "next_l (stop_l ?l1)"
      obtain cs' where c: "cs = DOLLAR # cs'"
        using True i1 peek_NEWLINE_Cons [of ?l1 DOLLAR] by auto
      have i2: "input ?l2 = cs'"
        using i1 c by (simp add: next_l_def advance_def stop_l_def mark_end_def)
      have "scan_body_dollar scanner d ?l2 = Return r scanner' lexer'"
        using assms True pk
        by (auto simp: scan_body_interpolation_def Let_def set_symbol_def split: if_splits)
      from dollar [OF this] obtain c' rest where "cs' = DOLLAR # c' # rest"
        "is_identifier_start_char c'" "r = d" "scanner' = scanner"
        using i2 by auto
      then have "input lexer = [LBRACE, DOLLAR] @ DOLLAR # c' # rest
          \<and> is_identifier_start_char c' \<and> r = d \<and> scanner' = scanner \<and> \<not> d"
        using l c True by simp
      then show ?thesis by blast
    qed
  qed
qed

lemma did_advance_moved:
  assumes "body_inv scanner lexer0 d lexer" and "\<not> is_nowdoc scanner"
    and "peek lexer = LBRACE \<or> peek lexer = DOLLAR"
  shows "d \<longleftrightarrow> pos lexer0 < pos lexer"
proof (cases d)
  case False
  then show ?thesis using assms(1) by (simp add: body_inv_def)
next
  case True
  have "pos lexer0 < pos lexer"
  proof (rule ccontr)
    assume "\<not> pos lexer0 < pos lexer"
    then have same: "pos lexer = pos lexer0"
      and no: "\<not> ((peek lexer0 = LBRACE \<or> peek lexer0 = DOLLAR) \<and> \<not> is_nowdoc scanner)"
      using assms(1) True by (auto simp: body_inv_def lexer_le_def)
    have "input lexer = input lexer0"
      using assms(1) same by (simp add: body_inv_def lexer_le_def)
    then have "peek lexer0 = peek lexer"
      by (simp add: peek_def)
    then show False using no assms(2,3) by simp
  qed
  then show ?thesis using True by simp
qed

lemma scan_body_brace_dollar_dollar:
  "scan_body c_locale heredoc_body (lexer_at [123, 36, 36, 120, 10] 0)
     = (False, heredoc_body,
        \<lparr>input = [120, 10], pos = 3, token_start = 0, token_end = Some 1,
          result_symbol = HEREDOC_BODY\<rparr>)"
  by code_simp

subsection \<open>\<open>string_push\<close> and the opener\<close>

lemma max16_double_neq: "(x :: u32) \<noteq> max 16 (x * 2)"
proof
  assume a: "x = max 16 (x * 2)"
  show False
  proof (cases "(16 :: u32) \<le> x * 2")
    case True
    then have "x = x * 2" using a by (simp add: max_def)
    then have "x = 0" by (simp add: mult_2_right)
    then show False using True by simp
  next
    case False
    then have "x = 16" using a by (simp add: max_def)
    then show False using False by simp
  qed
qed

lemma string_resize_Inr:
  assumes "string_resize string c = Inr string'" and "string_wf string"
  shows "cap string' = c \<and> len string' = len string
         \<and> length (data string') = unat (c + 1)
         \<and> unat (len string) \<le> unat (c + 1)
         \<and> take (unat (len string)) (data string') = take (unat (len string)) (data string)"
proof -
  let ?tmp = "realloc (data string) (unat (c + 1))"
  obtain d where m: "memset0 ?tmp (unat (len string)) (unat ((c + 1) - len string)) = Inr d"
    and s': "string' = string\<lparr>data := d, cap := c\<rparr>"
    using assms(1) by (auto simp: string_resize_def Let_def bindF_def split: sum.splits)
  have fit: "unat (len string) + unat ((c + 1) - len string) \<le> unat (c + 1)"
    and d: "d = take (unat (len string)) ?tmp @ replicate (unat ((c + 1) - len string)) 0
               @ drop (unat (len string) + unat ((c + 1) - len string)) ?tmp"
    using m by (auto simp: memset0_def split: if_splits)
  have le: "unat (len string) \<le> unat (c + 1)" using fit by simp
  have ls: "unat (len string) \<le> length (data string)"
    using assms(2) by (simp add: string_wf_def word_le_nat_alt)
  then have tk: "take (unat (len string)) ?tmp = take (unat (len string)) (data string)"
    using le by (simp add: realloc_def)
  have ld: "length d = unat (c + 1)"
    using d fit by simp
  have "take (unat (len string)) d = take (unat (len string)) (data string)"
    using d tk le ls by simp
  then show ?thesis
    using s' ld le by simp
qed

lemma string_push_Inr:
  assumes "string_push string chr = Inr string'" and "string_wf string"
  shows "string_wf string' \<and> unat (len string') = unat (len string) + 1
         \<and> string_bytes string' = string_bytes string @ [chr]"
proof -
  obtain s1 where g: "(if cap string = len string
            then string_resize string (max 16 (len string * 2)) else Inr string) = Inr s1"
    and st: "store_byte (data s1) (unat (len s1)) chr = Inr (data string')"
    and s': "string' = s1\<lparr>data := data string', len := len s1 + 1\<rparr>"
    using assms(1) by (auto simp: string_push_def bindF_def split: sum.splits)
  have in_range: "unat (len s1) < length (data s1)"
    and d': "data string' = (data s1)[unat (len s1) := chr]"
    using st by (auto simp: store_byte_def split: if_splits)
  have s1: "len s1 = len string \<and> length (data s1) = unat (cap s1) + 1 \<and> len s1 < cap s1
            \<and> take (unat (len string)) (data s1) = take (unat (len string)) (data string)"
  proof (cases "cap string = len string")
    case True
    then have r: "string_resize string (max 16 (len string * 2)) = Inr s1"
      using g by simp
    let ?c = "max 16 (len string * 2)"
    from string_resize_Inr [OF r assms(2)]
    have c: "cap s1 = ?c" and l: "len s1 = len string"
      and ld: "length (data s1) = unat (?c + 1)"
      and tk: "take (unat (len string)) (data s1) = take (unat (len string)) (data string)"
      by auto
    have "?c + 1 \<noteq> 0"
      using in_range ld by auto
    then have "1 + ?c \<noteq> 0" by (simp add: add.commute)
    then have u: "unat (?c + 1) = unat ?c + 1"
      using unatSuc [of ?c] by (simp add: add.commute)
    have "unat (len string) \<le> unat ?c"
      using in_range ld l u by simp
    moreover have "len string \<noteq> ?c" by (rule max16_double_neq)
    ultimately have "len string < ?c"
      by (simp add: word_less_nat_alt word_le_nat_alt le_neq_implies_less word_unat_eq_iff)
    then show ?thesis
      using c l ld tk u by simp
  next
    case False
    then have "s1 = string" using g by simp
    moreover have "len string < cap string"
      using False assms(2) by (auto simp: string_wf_def)
    ultimately show ?thesis
      using assms(2) by (simp add: string_wf_def)
  qed
  have lt: "unat (len s1) < unat (cap s1)"
    using s1 by (auto simp: word_less_nat_alt)
  then have u1: "unat (len s1 + 1) = unat (len s1) + 1"
    using unsigned_less [of "cap s1", where ?'a = nat]
    by (simp add: unat_word_ariths)
  have "len s1 + 1 \<le> cap s1"
    using lt u1 by (simp add: word_le_nat_alt)
  then have wf': "string_wf string'"
    using s' s1 d' by (simp add: string_wf_def)
  have "string_bytes string' = take (unat (len s1) + 1) ((data s1)[unat (len s1) := chr])"
    using s' d' u1 by (simp add: string_bytes_def)
  also have "\<dots> = take (unat (len s1)) (data s1) @ [chr]"
    using in_range by (simp add: take_Suc_conv_app_nth)
  also have "\<dots> = string_bytes string @ [chr]"
    using s1 by (simp add: string_bytes_def)
  finally have b: "string_bytes string' = string_bytes string @ [chr]" .
  have "len string' = len s1 + 1"
    by (subst s') simp
  then have "unat (len string') = unat (len string) + 1"
    using u1 s1 by simp
  then show ?thesis
    using wf' b by simp
qed

lemma string_push_total:
  assumes "string_wf string" and "unat (len string) < 2 ^ 31"
  shows "\<exists>string'. string_push string chr = Inr string'"
proof -
  let ?n = "unat (len string)"
  have r: "\<exists>s1. (if cap string = len string
            then string_resize string (max 16 (len string * 2)) else Inr string) = Inr s1
          \<and> len s1 = len string \<and> ?n < length (data s1)"
  proof (cases "cap string = len string")
    case True
    let ?c = "max 16 (len string * 2)"
    have dbl: "unat (len string * 2) = 2 * ?n"
      using assms(2) by (simp add: unat_word_ariths)
    have uc: "unat ?c = max 16 (2 * ?n)"
      using dbl by (simp add: max_def word_le_nat_alt)
    then have uc1: "unat (?c + 1) = max 16 (2 * ?n) + 1"
      using assms(2) by (simp add: unat_word_ariths)
    have sub: "unat (?c + 1 - len string) = max 16 (2 * ?n) + 1 - ?n"
      using uc1 by (simp add: unat_sub word_le_nat_alt)
    show ?thesis
      using True uc1 sub
      by (simp add: string_resize_def Let_def memset0_def)
  next
    case False
    then have "len string < cap string"
      using assms(1) by (auto simp: string_wf_def)
    then show ?thesis
      using False assms(1) by (simp add: string_wf_def word_less_nat_alt)
  qed
  then obtain s1 where "(if cap string = len string
            then string_resize string (max 16 (len string * 2)) else Inr string) = Inr s1"
    "len s1 = len string" "?n < length (data s1)"
    by blast
  then show ?thesis
    by (simp add: string_push_def store_byte_def)
qed


lemma skip_whitespace_eq:
  "skip_whitespace P lexer =
     lexer\<lparr>input := dropWhile (iswspace P) (input lexer),
            pos := pos lexer + length (takeWhile (iswspace P) (input lexer)),
            token_start := (if takeWhile (iswspace P) (input lexer) = [] then token_start lexer
                            else pos lexer + length (takeWhile (iswspace P) (input lexer)))\<rparr>"
proof (induction P lexer rule: skip_whitespace.induct)
  case (1 P lexer)
  show ?case
  proof (cases "iswspace P (peek lexer)")
    case True
    then obtain c cs where inp: "input lexer = c # cs"
      using iswspace_nonzero peek_nonzero by blast
    then have c: "iswspace P c" using True by (simp add: peek_def)
    have sk: "skip_l lexer = lexer\<lparr>input := cs, pos := pos lexer + 1,
                                     token_start := pos lexer + 1\<rparr>"
      using inp by (rule skip_l_Cons)
    have "skip_whitespace P lexer = skip_whitespace P (skip_l lexer)"
      using True by (subst skip_whitespace.simps) simp
    also have "\<dots> = (skip_l lexer)\<lparr>input := dropWhile (iswspace P) (input (skip_l lexer)),
            pos := pos (skip_l lexer) + length (takeWhile (iswspace P) (input (skip_l lexer))),
            token_start := (if takeWhile (iswspace P) (input (skip_l lexer)) = []
                            then token_start (skip_l lexer)
                            else pos (skip_l lexer)
                                 + length (takeWhile (iswspace P) (input (skip_l lexer))))\<rparr>"
      using "1.IH" [OF True] .
    also have "\<dots> = lexer\<lparr>input := dropWhile (iswspace P) (input lexer),
            pos := pos lexer + length (takeWhile (iswspace P) (input lexer)),
            token_start := (if takeWhile (iswspace P) (input lexer) = [] then token_start lexer
                            else pos lexer + length (takeWhile (iswspace P) (input lexer)))\<rparr>"
      using inp c by (simp add: sk)
    finally show ?thesis .
  next
    case False
    then have "takeWhile (iswspace P) (input lexer) = []"
      by (cases "input lexer") (auto simp: peek_def)
    moreover from this have "dropWhile (iswspace P) (input lexer) = input lexer"
      by (metis append_Nil takeWhile_dropWhile_id)
    moreover have "skip_whitespace P lexer = lexer"
      using False by (subst skip_whitespace.simps) simp
    ultimately show ?thesis by simp
  qed
qed

lemma scan_identifier_rest_lexer:
  "scan_identifier_rest P string lexer = Inr (string', lexer') \<Longrightarrow>
     lexer' = lexer\<lparr>input := dropWhile (is_ident_rest P) (input lexer),
                     pos := pos lexer + length (takeWhile (is_ident_rest P) (input lexer))\<rparr>"
proof (induction P string lexer rule: scan_identifier_rest.induct)
  case (1 P string lexer)
  show ?case
  proof (cases "iswalnum P (peek lexer) \<or> peek lexer = UNDERSCORE")
    case True
    then obtain c cs where inp: "input lexer = c # cs"
      using iswalnum_nonzero peek_nonzero by blast
    then have c: "is_ident_rest P c" using True by (simp add: peek_def is_ident_rest_def)
    obtain s1 where push: "string_push string (int_to_char (peek lexer)) = Inr s1"
      and rec: "scan_identifier_rest P s1 (next_l lexer) = Inr (string', lexer')"
      using "1.prems" True
      by (subst (asm) scan_identifier_rest.simps) (auto split: sum.splits)
    have "lexer' = (next_l lexer)\<lparr>input := dropWhile (is_ident_rest P) (input (next_l lexer)),
                     pos := pos (next_l lexer)
                            + length (takeWhile (is_ident_rest P) (input (next_l lexer)))\<rparr>"
      using "1.IH" [OF True push rec] .
    also have "\<dots> = lexer\<lparr>input := dropWhile (is_ident_rest P) (input lexer),
                     pos := pos lexer + length (takeWhile (is_ident_rest P) (input lexer))\<rparr>"
      using inp c by (simp add: next_l_Cons)
    finally show ?thesis .
  next
    case False
    then have "takeWhile (is_ident_rest P) (input lexer) = []"
      by (cases "input lexer") (auto simp: peek_def is_ident_rest_def)
    moreover from this have "dropWhile (is_ident_rest P) (input lexer) = input lexer"
      by (metis append_Nil takeWhile_dropWhile_id)
    moreover have "lexer' = lexer"
      using False "1.prems" by (subst (asm) scan_identifier_rest.simps) simp
    ultimately show ?thesis by simp
  qed
qed

lemma scan_identifier_rest_string:
  "scan_identifier_rest P string lexer = Inr (string', lexer') \<Longrightarrow> string_wf string \<Longrightarrow>
     string_wf string'
     \<and> string_bytes string'
         = string_bytes string @ map int_to_char (takeWhile (is_ident_rest P) (input lexer))
     \<and> unat (len string')
         = unat (len string) + length (takeWhile (is_ident_rest P) (input lexer))"
proof (induction P string lexer rule: scan_identifier_rest.induct)
  case (1 P string lexer)
  show ?case
  proof (cases "iswalnum P (peek lexer) \<or> peek lexer = UNDERSCORE")
    case True
    then obtain c cs where inp: "input lexer = c # cs"
      using iswalnum_nonzero peek_nonzero by blast
    then have c: "is_ident_rest P c" "peek lexer = c"
      using True by (simp_all add: peek_def is_ident_rest_def)
    obtain s1 where push: "string_push string (int_to_char (peek lexer)) = Inr s1"
      and rec: "scan_identifier_rest P s1 (next_l lexer) = Inr (string', lexer')"
      using "1.prems"(1) True
      by (subst (asm) scan_identifier_rest.simps) (auto split: sum.splits)
    from string_push_Inr [OF push "1.prems"(2)]
    have s1: "string_wf s1" "unat (len s1) = unat (len string) + 1"
      "string_bytes s1 = string_bytes string @ [int_to_char (peek lexer)]"
      by auto
    from "1.IH" [OF True push rec s1(1)] s1 inp c
    show ?thesis by simp
  next
    case False
    then have "takeWhile (is_ident_rest P) (input lexer) = []"
      by (cases "input lexer") (auto simp: peek_def is_ident_rest_def)
    moreover have "string' = string"
      using False "1.prems"(1) by (subst (asm) scan_identifier_rest.simps) simp
    ultimately show ?thesis using "1.prems"(2) by simp
  qed
qed

lemma scan_identifier_rest_total:
  "string_wf string \<Longrightarrow> unat (len string) + length (input lexer) < 2 ^ 31 \<Longrightarrow>
     \<exists>r. scan_identifier_rest P string lexer = Inr r"
proof (induction P string lexer rule: scan_identifier_rest.induct)
  case (1 P string lexer)
  show ?case
  proof (cases "iswalnum P (peek lexer) \<or> peek lexer = UNDERSCORE")
    case True
    then obtain c cs where inp: "input lexer = c # cs"
      using iswalnum_nonzero peek_nonzero by blast
    have "unat (len string) < 2 ^ 31" using "1.prems"(2) by simp
    then obtain s1 where push: "string_push string (int_to_char (peek lexer)) = Inr s1"
      using string_push_total [OF "1.prems"(1)] by blast
    from string_push_Inr [OF push "1.prems"(1)]
    have s1: "string_wf s1" "unat (len s1) = unat (len string) + 1"
      by auto
    have "unat (len s1) + length (input (next_l lexer)) < 2 ^ 31"
      using s1(2) inp "1.prems"(2) by simp
    from "1.IH" [OF True push s1(1) this]
    show ?thesis
      using True push by (subst scan_identifier_rest.simps) simp
  next
    case False
    then show ?thesis
      by (subst scan_identifier_rest.simps) simp
  qed
qed


lemma scan_identifier_lexer:
  assumes "scan_identifier P string lexer = Inr (string', lexer')"
  shows "lexer' = lexer\<lparr>input := drop (length (identifier_prefix P (input lexer))) (input lexer),
                     pos := pos lexer + length (identifier_prefix P (input lexer))\<rparr>"
proof (cases "iswalpha P (peek lexer) \<or> peek lexer = UNDERSCORE")
  case True
  then have "peek lexer \<noteq> 0" by (auto simp: iswalpha_def)
  then obtain c cs where inp: "input lexer = c # cs"
    using peek_nonzero by blast
  then have c: "is_ident_first P c" using True by (simp add: peek_def is_ident_first_def)
  obtain s1 where rec: "scan_identifier_rest P s1 (next_l lexer) = Inr (string', lexer')"
    using assms True by (auto simp: scan_identifier_def bindF_def split: sum.splits)
  have dr: "drop (length (takeWhile (is_ident_rest P) cs)) cs = dropWhile (is_ident_rest P) cs"
    by (metis append_eq_conv_conj takeWhile_dropWhile_id)
  show ?thesis
    using scan_identifier_rest_lexer [OF rec] inp c dr
    by (simp add: next_l_Cons identifier_prefix_def)
next
  case False
  then have "identifier_prefix P (input lexer) = []"
    by (cases "input lexer") (auto simp: identifier_prefix_def is_ident_first_def peek_def)
  moreover have "lexer' = lexer"
    using assms False by (simp add: scan_identifier_def)
  ultimately show ?thesis by simp
qed

lemma scan_identifier_string:
  assumes "scan_identifier P string lexer = Inr (string', lexer')" and "string_wf string"
  shows "string_wf string'
     \<and> string_bytes string'
         = string_bytes string @ map int_to_char (identifier_prefix P (input lexer))
     \<and> unat (len string') = unat (len string) + length (identifier_prefix P (input lexer))"
proof (cases "iswalpha P (peek lexer) \<or> peek lexer = UNDERSCORE")
  case True
  then have "peek lexer \<noteq> 0" by (auto simp: iswalpha_def)
  then obtain c cs where inp: "input lexer = c # cs"
    using peek_nonzero by blast
  then have c: "is_ident_first P c" "peek lexer = c"
    using True by (simp_all add: peek_def is_ident_first_def)
  obtain s1 where push: "string_push string (int_to_char (peek lexer)) = Inr s1"
    and rec: "scan_identifier_rest P s1 (next_l lexer) = Inr (string', lexer')"
    using assms(1) True by (auto simp: scan_identifier_def bindF_def split: sum.splits)
  from string_push_Inr [OF push assms(2)]
  have s1: "string_wf s1" "unat (len s1) = unat (len string) + 1"
    "string_bytes s1 = string_bytes string @ [int_to_char (peek lexer)]"
    by auto
  from scan_identifier_rest_string [OF rec s1(1)] s1 inp c
  show ?thesis
    by (simp add: identifier_prefix_def)
next
  case False
  then have "identifier_prefix P (input lexer) = []"
    by (cases "input lexer") (auto simp: identifier_prefix_def is_ident_first_def peek_def)
  moreover have "string' = string"
    using assms(1) False by (simp add: scan_identifier_def)
  ultimately show ?thesis using assms(2) by simp
qed

lemma scan_identifier_total:
  assumes "string_wf string" and "unat (len string) + length (input lexer) < 2 ^ 31"
  shows "\<exists>r. scan_identifier P string lexer = Inr r"
proof (cases "iswalpha P (peek lexer) \<or> peek lexer = UNDERSCORE")
  case True
  then have "peek lexer \<noteq> 0" by (auto simp: iswalpha_def)
  then obtain c cs where inp: "input lexer = c # cs"
    using peek_nonzero by blast
  have "unat (len string) < 2 ^ 31" using assms(2) by simp
  then obtain s1 where push: "string_push string (int_to_char (peek lexer)) = Inr s1"
    using string_push_total [OF assms(1)] by blast
  from string_push_Inr [OF push assms(1)]
  have s1: "string_wf s1" "unat (len s1) = unat (len string) + 1"
    by auto
  have "unat (len s1) + length (input (next_l lexer)) < 2 ^ 31"
    using s1(2) inp assms(2) by simp
  from scan_identifier_rest_total [OF s1(1) this, of P]
  show ?thesis
    using True push by (simp add: scan_identifier_def)
next
  case False
  then show ?thesis by (simp add: scan_identifier_def)
qed



lemma scan_start_unfold:
  "scan_start P s lx =
     bindF (scan_identifier P (string_clear (delimiter s)) (after_quote (skip_whitespace P lx)))
       (\<lambda>(string, lx3).
          Inr (scan_start_finish P
                 (s\<lparr>is_nowdoc := (peek (skip_whitespace P lx) = SQUOTE), delimiter := string\<rparr>)
                 (opener_quote (skip_whitespace P lx)) lx3))"
proof (cases "peek (skip_whitespace P lx) = SQUOTE \<or> peek (skip_whitespace P lx) = DQUOTE")
  case True
  then show ?thesis
    by (simp add: scan_start_def Let_def opener_quote_def after_quote_def)
next
  case False
  then show ?thesis
    by (simp add: scan_start_def Let_def opener_quote_def after_quote_def)
qed

lemma scan_start_finish_eq:
  assumes l4: "l4 = (if peek lexer = quote then next_l lexer else lexer)"
    and sd: "scan_delimiter P scanner (next_l (stop_l (set_symbol HEREDOC_START l4))) = (m, l)"
    and l6: "l6 = (if m \<and> peek l = SEMICOLON then next_l l else l)"
  shows "scan_start_finish P scanner quote lexer =
     (if peek lexer \<noteq> quote \<and> quote \<noteq> 0 then (False, scanner, lexer)
      else if peek l4 \<noteq> NEWLINE \<or> len (delimiter scanner) = 0 then (False, scanner, l4)
      else (True, (if m \<and> peek l6 = NEWLINE then scanner\<lparr>did_end := True\<rparr> else scanner), l6))"
  unfolding scan_start_finish_def Let_def l4 [symmetric]
  using sd l6 by (cases m) simp_all

lemma scan_start_finish_ok:
  "fst (scan_start_finish P scanner quote lexer) \<longleftrightarrow>
     \<not> (peek lexer \<noteq> quote \<and> quote \<noteq> 0)
     \<and> peek (if peek lexer = quote then next_l lexer else lexer) = NEWLINE
     \<and> len (delimiter scanner) \<noteq> 0"
proof -
  define l4 where "l4 = (if peek lexer = quote then next_l lexer else lexer)"
  obtain m l where sd: "scan_delimiter P scanner (next_l (stop_l (set_symbol HEREDOC_START l4)))
      = (m, l)"
    by (cases "scan_delimiter P scanner (next_l (stop_l (set_symbol HEREDOC_START l4)))")
  show ?thesis
    unfolding l4_def [symmetric]
    by (simp add: scan_start_finish_eq [OF l4_def sd refl])
qed

lemma scan_start_finish_scanner:
  assumes "scan_start_finish P scanner quote lexer = (r, scanner', lexer')"
  shows "scanner' = scanner \<or> (r \<and> scanner' = scanner\<lparr>did_end := True\<rparr>)"
proof -
  define l4 where "l4 = (if peek lexer = quote then next_l lexer else lexer)"
  obtain m l where sd: "scan_delimiter P scanner (next_l (stop_l (set_symbol HEREDOC_START l4)))
      = (m, l)"
    by (cases "scan_delimiter P scanner (next_l (stop_l (set_symbol HEREDOC_START l4)))")
  show ?thesis
    using assms
    by (auto simp: scan_start_finish_eq [OF l4_def sd refl] split: if_splits)
qed



lemma scan_start_Inr:
  assumes "scan_start P s lx = Inr r"
  obtains string lx3 where
    "scan_identifier P (string_clear (delimiter s)) (after_quote (skip_whitespace P lx))
       = Inr (string, lx3)"
    "r = scan_start_finish P
           (s\<lparr>is_nowdoc := (peek (skip_whitespace P lx) = SQUOTE), delimiter := string\<rparr>)
           (opener_quote (skip_whitespace P lx)) lx3"
  using assms unfolding scan_start_unfold
  by (auto simp: bindF_def split: sum.splits)








subsection \<open>Runs of the host\<close>








lemma scan_start_EOF:
  "scan_start c_locale create (lexer_at [69, 79, 70, 10] 0)
     = Inr (True, heredoc_EOF\<lparr>did_end := False\<rparr>,
            \<lparr>input = [], pos = 4, token_start = 0, token_end = Some 3,
              result_symbol = HEREDOC_START\<rparr>)"
  by code_simp

subsection \<open>\<open>scan_start\<close> and the opener\<close>

lemma peek_case: "peek lexer = (case input lexer of [] \<Rightarrow> 0 | c # cs \<Rightarrow> c)"
  by (simp add: peek_def)

lemma finish_condition:
  assumes "NUL \<notin> set cs3" and "input lx3 = cs3"
    and "(ql = [] \<and> q = 0) \<or> (ql = [q] \<and> q \<noteq> 0)"
  shows "(\<not> (peek lx3 \<noteq> q \<and> q \<noteq> 0)
          \<and> peek (if peek lx3 = q then next_l lx3 else lx3) = NEWLINE)
         \<longleftrightarrow> take (length ql + 1) cs3 = ql @ [NEWLINE]"
proof (cases cs3)
  case Nil
  then show ?thesis
    using assms(2,3) by (auto simp: peek_case)
next
  case (Cons c cs)
  then have c: "c \<noteq> 0" using assms(1) by auto
  show ?thesis
  proof (cases cs)
    case Nil
    then show ?thesis
      using Cons c assms(2,3) by (auto simp: peek_case)
  next
    case (Cons d ds)
    then show ?thesis
      using \<open>cs3 = c # cs\<close> c assms(2,3) by (auto simp: peek_case)
  qed
qed


lemma scan_start_opener:
  assumes "string_wf (delimiter scanner)" and "length (input lexer) < 2 ^ 31"
    and "NUL \<notin> set (input lexer)"
  shows "\<exists>ok scanner' lexer'. scan_start P scanner lexer = Inr (ok, scanner', lexer')
     \<and> string_wf (delimiter scanner')
     \<and> (case opener P (input lexer) of
           None \<Rightarrow> \<not> ok
         | Some (nowdoc, ident) \<Rightarrow>
             ok \<and> is_nowdoc scanner' = nowdoc
             \<and> string_bytes (delimiter scanner') = map int_to_char ident
             \<and> unat (len (delimiter scanner')) = length ident)"
proof -
  let ?lx1 = "skip_whitespace P lexer"
  define cs1 where "cs1 = dropWhile (iswspace P) (input lexer)"
  define ql where "ql = (case cs1 of [] \<Rightarrow> []
                         | c # cs' \<Rightarrow> if c = SQUOTE \<or> c = DQUOTE then [c] else [])"
  define q where "q = opener_quote ?lx1"
  define cs2 where "cs2 = drop (length ql) cs1"
  define ident where "ident = identifier_prefix P cs2"
  define cs3 where "cs3 = drop (length ident) cs2"
  have i1: "input ?lx1 = cs1"
    by (simp add: skip_whitespace_eq [of P lexer] cs1_def)
  have qq: "(ql = [] \<and> q = 0) \<or> (ql = [q] \<and> q \<noteq> 0)"
    and nd: "(peek ?lx1 = SQUOTE) = (ql = [SQUOTE])"
    and i2: "input (after_quote ?lx1) = cs2"
    using i1
    by (cases cs1; auto simp: ql_def q_def cs2_def opener_quote_def after_quote_def peek_case)+
  have sub: "set cs3 \<subseteq> set (input lexer)"
  proof -
    have "set cs3 \<subseteq> set cs2" unfolding cs3_def by (rule set_drop_subset)
    also have "\<dots> \<subseteq> set cs1" unfolding cs2_def by (rule set_drop_subset)
    also have "\<dots> \<subseteq> set (input lexer)"
      unfolding cs1_def by (auto dest: set_dropWhileD)
    finally show ?thesis .
  qed
  then have nul3: "NUL \<notin> set cs3" using assms(3) by auto
  have l2: "length cs2 \<le> length (input lexer)"
    by (simp add: cs2_def cs1_def length_dropWhile_le le_diff_conv trans_le_add1)
  let ?clear = "string_clear (delimiter scanner)"
  have wfc: "string_wf ?clear"
    using assms(1) by (rule string_wf_clear)
  have "unat (len ?clear) + length (input (after_quote ?lx1)) < 2 ^ 31"
    using l2 assms(2) i2 by simp
  from scan_identifier_total [OF wfc this, of P]
  obtain string lx3 where id: "scan_identifier P ?clear (after_quote ?lx1) = Inr (string, lx3)"
    by auto
  have i3: "input lx3 = cs3"
    using scan_identifier_lexer [OF id] i2 by (simp add: cs3_def ident_def)
  have sb: "string_bytes string = map int_to_char ident"
    and ul: "unat (len string) = length ident"
    and wfs: "string_wf string"
    using scan_identifier_string [OF id wfc] i2 by (simp_all add: ident_def)
  have ln: "len string \<noteq> 0 \<longleftrightarrow> ident \<noteq> []"
    using ul by (metis length_0_conv unat_eq_zero)
  let ?s2 = "scanner\<lparr>is_nowdoc := (peek ?lx1 = SQUOTE), delimiter := string\<rparr>"
  obtain ok s' l' where fin: "scan_start_finish P ?s2 q lx3 = (ok, s', l')"
    by (cases "scan_start_finish P ?s2 q lx3")
  have st: "scan_start P scanner lexer = Inr (ok, s', l')"
    using id fin by (simp add: scan_start_unfold q_def)
  have "ok \<longleftrightarrow> fst (scan_start_finish P ?s2 q lx3)"
    using fin by simp
  also have "\<dots> \<longleftrightarrow> (\<not> (peek lx3 \<noteq> q \<and> q \<noteq> 0)
          \<and> peek (if peek lx3 = q then next_l lx3 else lx3) = NEWLINE) \<and> len string \<noteq> 0"
    by (simp add: scan_start_finish_ok)
  also have "\<dots> \<longleftrightarrow> take (length ql + 1) cs3 = ql @ [NEWLINE] \<and> ident \<noteq> []"
    using finish_condition [OF nul3 i3 qq] ln by simp
  finally have ok: "ok \<longleftrightarrow> ident \<noteq> [] \<and> take (length ql + 1) cs3 = ql @ [NEWLINE]"
    by blast
  have s': "is_nowdoc s' = (ql = [SQUOTE])" "delimiter s' = string"
    using scan_start_finish_scanner [OF fin] nd by auto
  have op: "opener P (input lexer) =
      (if ident \<noteq> [] \<and> take (length ql + 1) cs3 = ql @ [NEWLINE]
       then Some (ql = [SQUOTE], ident) else None)"
    unfolding opener_def Let_def cs1_def [symmetric] ql_def [symmetric] cs2_def [symmetric]
      ident_def [symmetric] cs3_def [symmetric]
    by (rule refl)
  have "case opener P (input lexer) of
           None \<Rightarrow> \<not> ok
         | Some (nowdoc, ident) \<Rightarrow>
             ok \<and> is_nowdoc s' = nowdoc \<and> string_bytes (delimiter s') = map int_to_char ident
             \<and> unat (len (delimiter s')) = length ident"
    using ok s' sb ul by (simp add: op)
  moreover have "string_wf (delimiter s')"
    using s' wfs by simp
  ultimately show ?thesis
    using st by blast
qed


lemma scan_start_high_byte:
  "scan_start c_locale create (lexer_at [233, 10] 0) = Inr (False, create, lexer_at [233, 10] 0)"
  by code_simp

lemma scan_start_high_byte_latin1:
  "scan_start latin1_locale create (lexer_at [65, 233, 10] 0)
     = Inr (True,
            \<lparr>delimiter = \<lparr>cap = 16, len = 2, data = [65, 233] @ replicate 15 0\<rparr>,
              is_nowdoc = False, did_start = False, did_end = False\<rparr>,
            \<lparr>input = [], pos = 3, token_start = 0, token_end = Some 2,
              result_symbol = HEREDOC_START\<rparr>)"
  by code_simp





subsection \<open>The bytes of the delimiter\<close>

lemma ident_rest_ascii:
  assumes "\<forall>c. \<not> alpha_class P c" and "is_ident_rest P c"
  shows "ascii_ident_char (int_to_char c)"
proof -
  have r: "c = 95 \<or> (48 \<le> c \<and> c \<le> 57) \<or> (65 \<le> c \<and> c \<le> 90) \<or> (97 \<le> c \<and> c \<le> 122)"
    using assms by (auto simp: is_ident_rest_def iswalnum_def iswalpha_def)
  then have "0 \<le> c" "c < 256" by auto
  then have u: "uint (word_of_int c :: cchar) = c"
    by (simp add: uint_word_of_int take_bit_eq_mod)
  have "uint (int_to_char c) = 95 \<or> (48 \<le> uint (int_to_char c) \<and> uint (int_to_char c) \<le> 57)
        \<or> (65 \<le> uint (int_to_char c) \<and> uint (int_to_char c) \<le> 90)
        \<or> (97 \<le> uint (int_to_char c) \<and> uint (int_to_char c) \<le> 122)"
    using r u by (simp add: int_to_char_def)
  then show ?thesis
    by (simp add: ascii_ident_char_def word_le_def word_uint_eq_iff)
qed

lemma ident_first_rest: "is_ident_first P c \<Longrightarrow> is_ident_rest P c"
  by (auto simp: is_ident_first_def is_ident_rest_def iswalnum_def)

lemma identifier_prefix_chars: "c \<in> set (identifier_prefix P cs) \<Longrightarrow> is_ident_rest P c"
  by (cases cs) (auto simp: identifier_prefix_def ident_first_rest dest: set_takeWhileD
      split: if_splits)

lemma scan_start_delimiter:
  assumes "scan_start P s lx = Inr (r, s', lx')" and "string_wf (delimiter s)"
  shows "string_wf (delimiter s')
         \<and> (\<exists>ident. string_bytes (delimiter s') = map int_to_char ident
                     \<and> (\<forall>c \<in> set ident. is_ident_rest P c))"
proof -
  let ?lx1 = "skip_whitespace P lx"
  from scan_start_Inr [OF assms(1)]
  obtain string lx3 where
    id: "scan_identifier P (string_clear (delimiter s)) (after_quote ?lx1) = Inr (string, lx3)"
    and fin: "(r, s', lx') = scan_start_finish P
           (s\<lparr>is_nowdoc := (peek ?lx1 = SQUOTE), delimiter := string\<rparr>)
           (opener_quote ?lx1) lx3"
    by blast
  have d: "delimiter s' = string"
    using scan_start_finish_scanner [OF fin [symmetric]] by auto
  have wfc: "string_wf (string_clear (delimiter s))"
    using assms(2) by (rule string_wf_clear)
  from scan_identifier_string [OF id wfc]
  have "string_wf string"
    and "string_bytes string
         = map int_to_char (identifier_prefix P (input (after_quote ?lx1)))"
    by simp_all
  then show ?thesis
    using d identifier_prefix_chars by blast
qed

lemma scan_body_step_delimiter:
  assumes "scan_body_step P scanner d lexer = Return r scanner' lexer'"
  shows "delimiter scanner' = delimiter scanner
         \<or> delimiter scanner' = string_clear (delimiter scanner)"
proof -
  consider (eof) "scanner' = scanner"
    | (interp) "scan_body_interpolation scanner d lexer = Return r scanner' lexer'"
    | (close) "scan_body_close P scanner d lexer = Return r scanner' lexer'"
    using assms by (auto simp: scan_body_step_def split: if_splits)
  then show ?thesis
  proof cases
    case eof
    then show ?thesis by simp
  next
    case interp
    from scan_body_interpolation_outcome [OF this] show ?thesis by simp
  next
    case close
    from scan_body_close_Return [OF this] show ?thesis
      by (auto simp: closed_def)
  qed
qed

lemma scan_body_loop_delimiter:
  "delimiter (fst (snd (scan_body_loop P scanner d lexer))) = delimiter scanner
   \<or> delimiter (fst (snd (scan_body_loop P scanner d lexer))) = string_clear (delimiter scanner)"
proof (induction P scanner d lexer rule: scan_body_loop.induct)
  case (1 P scanner d lexer)
  show ?case
  proof (cases "scan_body_step P scanner d lexer")
    case (Return r1 s1 l1)
    have "scan_body_loop P scanner d lexer = (r1, s1, l1)"
      using Return by (rule scan_body_loop_Return)
    then show ?thesis
      using scan_body_step_delimiter [OF Return] by simp
  next
    case (Continue d1 l1)
    have "scan_body_loop P scanner d lexer = scan_body_loop P scanner d1 l1"
      using Continue by (rule scan_body_loop_Continue)
    then show ?thesis
      using "1.IH" [OF Continue] by simp
  qed
qed

lemma delimiter_ok_clear:
  "string_wf string \<Longrightarrow>
     string_wf (string_clear string) \<and> list_all ascii_ident_char (string_bytes (string_clear string))"
  by (simp add: string_wf_clear)

lemma scan_delimiter_ok:
  assumes "\<forall>c. \<not> alpha_class P c" and "delimiter_ok scanner"
    and "scan P scanner lexer expected = Inr (result, scanner', lexer')"
  shows "delimiter_ok scanner'"
proof -
  have wf: "string_wf (delimiter scanner)"
    using assms(2) by (simp add: delimiter_ok_def)
  consider (body) "scan_body P scanner lexer = (result, scanner', lexer')"
    | (start) "scan_start P scanner lexer = Inr (result, scanner', lexer')"
    | (none) "scanner' = scanner"
    using assms(3) by (auto simp: scan_def split: if_splits)
  then show ?thesis
  proof cases
    case body
    then have "delimiter scanner' = delimiter scanner
               \<or> delimiter scanner' = string_clear (delimiter scanner)"
      using scan_body_loop_delimiter [of P scanner False lexer] by (simp add: scan_body_def)
    then show ?thesis
      using assms(2) delimiter_ok_clear [OF wf] by (auto simp: delimiter_ok_def)
  next
    case start
    from scan_start_delimiter [OF this wf]
    obtain ident where w: "string_wf (delimiter scanner')"
      and b: "string_bytes (delimiter scanner') = map int_to_char ident"
      and i: "\<forall>c \<in> set ident. is_ident_rest P c"
      by blast
    have "list_all ascii_ident_char (map int_to_char ident)"
      using i ident_rest_ascii [OF assms(1)] by (simp add: list_all_iff)
    then show ?thesis
      using w b by (simp add: delimiter_ok_def)
  next
    case none
    then show ?thesis using assms(2) by simp
  qed
qed

lemma round_trip_delimiter_ok:
  assumes "delimiter_ok scanner" and "delimiter_ok target"
    and "length buffer = unat TREE_SITTER_SERIALIZATION_BUFFER_SIZE"
    and "serialize scanner buffer = Inr (n, buffer')"
    and "deserialize target buffer' n = Inr scanner'"
  shows "delimiter_ok scanner'"
proof (cases "n = 0")
  case True
  have "string_wf (delimiter target)"
    using assms(2) by (simp add: delimiter_ok_def)
  from delimiter_ok_clear [OF this] show ?thesis
    using assms(5) True by (auto simp: deserialize_zero delimiter_ok_def)
next
  case False
  let ?k = "unat (len (delimiter scanner))"
  have wf: "string_wf (delimiter scanner)" and wft: "string_wf (delimiter target)"
    using assms(1,2) by (simp_all add: delimiter_ok_def)
  have lb: "length buffer = 1024"
    using assms(3) by (simp add: TREE_SITTER_SERIALIZATION_BUFFER_SIZE_def)
  from serialize_Inr_fits [OF assms(4) False]
  have fit: "?k + 3 \<le> length buffer" and n: "n = len (delimiter scanner) + 3"
    by simp_all
  have le: "length buffer \<le> 1024" using lb by simp
  let ?b = "[bool_to_char (is_nowdoc scanner), bool_to_char (did_start scanner),
             bool_to_char (did_end scanner)]
            @ string_bytes (delimiter scanner) @ drop (3 + ?k) buffer"
  have b': "buffer' = ?b" and un: "unat n = ?k + 3"
    using serialize_nonzero [OF wf fit le] assms(4) n by simp_all
  have lbytes: "length (string_bytes (delimiter scanner)) = ?k"
    using wf by (simp add: string_bytes_def string_wf_def word_le_nat_alt)
  have "unat n \<le> length buffer'"
    using b' un lbytes fit by simp
  from deserialize_nonzero [OF wft _ this] un assms(5)
  have w: "string_wf (delimiter scanner')"
    and bs: "string_bytes (delimiter scanner') = take (unat n - 3) (drop 3 buffer')"
    by auto
  have "take (unat n - 3) (drop 3 buffer') = string_bytes (delimiter scanner)"
    using b' un lbytes by simp
  then show ?thesis
    using w bs assms(1) by (simp add: delimiter_ok_def)
qed

lemma opener_long:
  "opener c_locale (replicate 256 65 @ [10]) = Some (False, replicate 256 65)"
  by code_simp

lemma scan_long_delimiter:
  "\<exists>scanner' lexer'.
     scan c_locale create (lexer_at (replicate 256 65 @ [10]) 0) (\<lambda>t. t = HEREDOC_START)
       = Inr (True, scanner', lexer')
     \<and> unat (len (delimiter scanner')) = 256"
proof -
  let ?l = "lexer_at (replicate 256 65 @ [10]) 0"
  have i: "input ?l = replicate 256 65 @ [10]" by (simp add: lexer_at_def)
  have h2: "length (input ?l) < 2 ^ 31" by (simp add: i)
  have h3: "NUL \<notin> set (input ?l)" by (simp add: i)
  from scan_start_opener [OF create_wf h2 h3, of c_locale]
  obtain ok scanner' lexer' where "scan_start c_locale create ?l = Inr (ok, scanner', lexer')"
    and "ok \<and> unat (len (delimiter scanner')) = length (replicate 256 (65 :: int))"
    by (auto simp: i opener_long)
  moreover have "scan c_locale create ?l (\<lambda>t. t = HEREDOC_START) = scan_start c_locale create ?l"
    by (simp add: scan_def create_def string_new_def)
  ultimately show ?thesis by simp
qed

section \<open>The claims\<close>

text \<open>
  C1. For a scanner whose delimiter string is well formed and shorter than \<open>2^32 - 2\<close> bytes
  (every state a scan of a host input builds), and the host's buffer of
  \<open>TREE_SITTER_SERIALIZATION_BUFFER_SIZE\<close> bytes: \<open>serialize\<close> returns 0 exactly when the three
  flags and the delimiter do not fit into the buffer; otherwise it returns \<open>3 + delimiter.len\<close>
  with \<open>is_nowdoc\<close>, \<open>did_start\<close>, \<open>did_end\<close> at offsets 0-2 followed by the delimiter bytes,
  and \<open>deserialize\<close> of that buffer and length, into any well-formed scanner, restores the
  flags, the length and the bytes of the delimiter. \<open>deserialize\<close> with length 0 resets the
  flags to false and the delimiter to empty.
\<close>

theorem C1_serialize_round_trip:
  assumes "string_wf (delimiter s)" and "string_wf (delimiter t)"
    and "unat (len (delimiter s)) < 2 ^ 32 - 2"
    and "length buffer = unat TREE_SITTER_SERIALIZATION_BUFFER_SIZE"
  shows "\<exists>n buffer'. serialize s buffer = Inr (n, buffer')
     \<and> (n = 0 \<longleftrightarrow> length buffer < 3 + unat (len (delimiter s)))
     \<and> (n \<noteq> 0 \<longrightarrow>
          n = len (delimiter s) + 3 \<and> unat n = 3 + unat (len (delimiter s))
          \<and> take (unat n) buffer' =
              [bool_to_char (is_nowdoc s), bool_to_char (did_start s),
               bool_to_char (did_end s)] @ string_bytes (delimiter s)
          \<and> (\<exists>s'. deserialize t buffer' n = Inr s'
                \<and> is_nowdoc s' = is_nowdoc s \<and> did_start s' = did_start s
                \<and> did_end s' = did_end s \<and> len (delimiter s') = len (delimiter s)
                \<and> string_bytes (delimiter s') = string_bytes (delimiter s)
                \<and> string_wf (delimiter s')))
     \<and> (\<exists>s0. deserialize t buffer' 0 = Inr s0
           \<and> \<not> is_nowdoc s0 \<and> \<not> did_start s0 \<and> \<not> did_end s0
           \<and> len (delimiter s0) = 0 \<and> string_bytes (delimiter s0) = [])"
proof -
  let ?n = "unat (len (delimiter s))"
  have lb: "length buffer = 1024"
    using assms(4) by (simp add: TREE_SITTER_SERIALIZATION_BUFFER_SIZE_def)
  have reset: "\<exists>s0. deserialize t b 0 = Inr s0
           \<and> \<not> is_nowdoc s0 \<and> \<not> did_start s0 \<and> \<not> did_end s0
           \<and> len (delimiter s0) = 0 \<and> string_bytes (delimiter s0) = []" for b
    by (simp add: deserialize_zero)
  show ?thesis
  proof (cases "1022 \<le> ?n")
    case True
    then have "serialize s buffer = Inr (0, buffer)"
      using assms(3) by (rule serialize_zero)
    then show ?thesis
      using True lb reset by auto
  next
    case False
    then have fit: "?n + 3 \<le> length buffer" "length buffer \<le> 1024"
      using lb by auto
    let ?hd = "[bool_to_char (is_nowdoc s), bool_to_char (did_start s), bool_to_char (did_end s)]"
    let ?b = "?hd @ string_bytes (delimiter s) @ drop (3 + ?n) buffer"
    let ?m = "len (delimiter s) + 3"
    have ser: "serialize s buffer = Inr (?m, ?b)"
      and um: "unat ?m = ?n + 3"
      using serialize_nonzero [OF assms(1) fit] by auto
    have lbytes: "length (string_bytes (delimiter s)) = ?n"
    proof -
      have "?n \<le> unat (cap (delimiter s))"
        using assms(1) by (simp add: string_wf_def word_le_nat_alt)
      then show ?thesis
        using assms(1) by (simp add: string_bytes_def string_wf_def)
    qed
    have m0: "?m \<noteq> 0"
      using um by (metis add_is_0 unat_0 zero_neq_numeral)
    have tk: "take (unat ?m) ?b = ?hd @ string_bytes (delimiter s)"
      using um lbytes by (simp add: numeral_3_eq_3)
    have len_b: "unat ?m \<le> length ?b"
      using um lbytes fit by simp
    obtain s' where d: "deserialize t ?b ?m = Inr s'"
      and f: "is_nowdoc s' = char_to_bool (?b ! 0)" "did_start s' = char_to_bool (?b ! 1)"
        "did_end s' = char_to_bool (?b ! 2)"
      and l: "len (delimiter s') = ?m - 3"
      and b: "string_bytes (delimiter s') = take (unat ?m - 3) (drop 3 ?b)"
      and w: "string_wf (delimiter s')"
      using deserialize_nonzero [OF assms(2) _ len_b] um by auto
    have "take (unat ?m - 3) (drop 3 ?b) = string_bytes (delimiter s)"
      using um lbytes by simp
    then have "\<exists>s'. deserialize t ?b ?m = Inr s'
                \<and> is_nowdoc s' = is_nowdoc s \<and> did_start s' = did_start s
                \<and> did_end s' = did_end s \<and> len (delimiter s') = len (delimiter s)
                \<and> string_bytes (delimiter s') = string_bytes (delimiter s)
                \<and> string_wf (delimiter s')"
      using d f l b w by simp
    then show ?thesis
      using ser m0 um tk reset [of ?b] fit False by (intro exI [of _ ?m] exI [of _ ?b]) auto
  qed
qed

theorem C1_serialize_round_trip_witness:
  "string_wf (delimiter heredoc_EOF) \<and> string_wf (delimiter create)
   \<and> unat (len (delimiter heredoc_EOF)) < 2 ^ 32 - 2
   \<and> length (replicate 1024 (0 :: cchar)) = unat TREE_SITTER_SERIALIZATION_BUFFER_SIZE
   \<and> (\<exists>n buffer' s'. serialize heredoc_EOF (replicate 1024 0) = Inr (n, buffer')
         \<and> n = 6 \<and> take 6 buffer' = [0, 0, 1, 69, 79, 70]
         \<and> deserialize create buffer' n = Inr s'
         \<and> string_bytes (delimiter s') = [69, 79, 70] \<and> did_end s' \<and> \<not> is_nowdoc s')"
proof -
  have h1: "string_wf (delimiter heredoc_EOF)" by (rule heredoc_EOF_wf)
  have h2: "string_wf (delimiter create)" by (rule create_wf)
  have h3: "unat (len (delimiter heredoc_EOF)) < 2 ^ 32 - 2"
    by (simp add: heredoc_EOF_def)
  have h4: "length (replicate 1024 (0 :: cchar)) = unat TREE_SITTER_SERIALIZATION_BUFFER_SIZE"
    by (simp add: TREE_SITTER_SERIALIZATION_BUFFER_SIZE_def)
  have v: "len (delimiter heredoc_EOF) = 3" "string_bytes (delimiter heredoc_EOF) = [69, 79, 70]"
    "did_end heredoc_EOF" "\<not> is_nowdoc heredoc_EOF" "\<not> did_start heredoc_EOF"
    by (simp_all add: heredoc_EOF_def string_bytes_def)
  show ?thesis
    using h1 h2 h3 h4 C1_serialize_round_trip [OF h1 h2 h3 h4] v
    by (auto simp: bool_to_char_def)
qed







text \<open>
  C4. The claim has the \<open>HEREDOC_END\<close> token end after the newline that follows the closing
  delimiter. The code marks the end right after the delimiter (line 295) and looks at the
  \<open>;\<close> and the newline only afterwards: in the input \<open>EOF\<close>, newline, \<open>EOF;\<close>, newline,
  the scan from position 3 ends the token at position 7, in front of the \<open>;\<close> at 7 and of
  the newline at 8.
\<close>

theorem C4_heredoc_end_extent_counterexample:
  "scan_body c_locale heredoc_EOF (lexer_at [69, 79, 70, 10, 69, 79, 70, 59, 10] 3)
     = (True, create,
        \<lparr>input = [10], pos = 8, token_start = 4, token_end = Some 7,
          result_symbol = HEREDOC_END\<rparr>)
   \<and> [69, 79, 70, 10, 69, 79, 70, 59, 10 :: int] ! 7 = SEMICOLON
   \<and> [69, 79, 70, 10, 69, 79, 70, 59, 10 :: int] ! 8 = NEWLINE
   \<and> \<not> (8 :: nat) < 7"
  using heredoc_EOF_end_scan by simp

text \<open>
  C4, amended. Whenever \<open>scan_body\<close> emits \<open>HEREDOC_END\<close> (for a well-formed delimiter
  without a NUL byte), \<open>did_end\<close> was set on entry, the input at the cursor is an optional
  newline, the delimiter, an optional \<open>;\<close> and a newline; the newline in front is skipped,
  the token ends right after the delimiter, the \<open>;\<close> is consumed beyond the token end and
  the final newline is not consumed; the scanner is reset.
\<close>

theorem C4_heredoc_end_extent:
  assumes "scan_body P scanner lexer = (True, scanner', lexer')"
    and "result_symbol lexer' = HEREDOC_END"
    and "string_wf (delimiter scanner)" and "NUL \<notin> set (delimiter_codes P scanner)"
  shows "did_end scanner \<and> scanner' = closed scanner
     \<and> (\<exists>nl semi. (nl = [] \<or> nl = [NEWLINE]) \<and> (semi = [] \<or> semi = [SEMICOLON])
           \<and> input lexer = nl @ delimiter_codes P scanner @ semi @ input lexer'
           \<and> peek lexer' = NEWLINE
           \<and> token_start lexer' = (if nl = [] then token_start lexer else pos lexer + 1)
           \<and> token_end lexer' = Some (pos lexer + length nl + length (delimiter_codes P scanner))
           \<and> pos lexer' = pos lexer + length nl + length (delimiter_codes P scanner)
                            + length semi)"
proof -
  let ?cs = "delimiter_codes P scanner"
  let ?lexer1 = "if peek lexer = NEWLINE then skip_l lexer else lexer"
  have "scan_body_close P scanner False lexer = Return True scanner' lexer'"
    using assms(1,2) by (rule scan_body_end_first_step)
  from scan_body_close_Return [OF this] assms(2)
  obtain lexer2 where de: "did_end scanner" and cl: "scanner' = closed scanner"
    and sd: "scan_delimiter P scanner ?lexer1 = (True, lexer2)"
    and l': "lexer' = set_symbol HEREDOC_END
                    (if peek lexer2 = SEMICOLON then next_l (stop_l lexer2) else stop_l lexer2)"
    and nl': "peek lexer' = NEWLINE"
    by auto
  from scan_delimiter_match [OF sd assms(3,4)]
  have i1: "input ?lexer1 = ?cs @ input lexer2"
    and l2: "lexer2 = ?lexer1\<lparr>input := input lexer2, pos := pos ?lexer1 + length ?cs\<rparr>"
    by auto
  define nl where "nl = (if peek lexer = NEWLINE then [NEWLINE] else [])"
  define semi where "semi = (if peek lexer2 = SEMICOLON then [SEMICOLON] else [])"
  have a1: "input lexer = nl @ input ?lexer1 \<and> pos ?lexer1 = pos lexer + length nl
    \<and> token_start ?lexer1 = (if nl = [] then token_start lexer else pos lexer + 1)"
  proof (cases "peek lexer = NEWLINE")
    case True
    then obtain cs where "input lexer = NEWLINE # cs"
      using peek_NEWLINE_Cons [of lexer NEWLINE] by auto
    then show ?thesis
      using True by (simp add: nl_def skip_l_Cons)
  next
    case False
    then show ?thesis
      by (simp add: nl_def)
  qed
  have p2: "pos lexer2 = pos ?lexer1 + length ?cs"
    and t2: "token_start lexer2 = token_start ?lexer1"
    by (subst l2, simp)+
  have a2: "input lexer2 = semi @ input lexer' \<and> pos lexer' = pos lexer2 + length semi
    \<and> token_end lexer' = Some (pos lexer2) \<and> token_start lexer' = token_start lexer2"
  proof (cases "peek lexer2 = SEMICOLON")
    case True
    then obtain cs where c: "input lexer2 = SEMICOLON # cs"
      using peek_NEWLINE_Cons [of lexer2 SEMICOLON] by auto
    then have "input (stop_l lexer2) = SEMICOLON # cs" by simp
    from next_l_Cons [OF this] c True l'
    show ?thesis
      by (simp add: semi_def)
  next
    case False
    then show ?thesis
      using l' by (simp add: semi_def)
  qed
  have "(nl = [] \<or> nl = [NEWLINE]) \<and> (semi = [] \<or> semi = [SEMICOLON])
           \<and> input lexer = nl @ ?cs @ semi @ input lexer'
           \<and> peek lexer' = NEWLINE
           \<and> token_start lexer' = (if nl = [] then token_start lexer else pos lexer + 1)
           \<and> token_end lexer' = Some (pos lexer + length nl + length ?cs)
           \<and> pos lexer' = pos lexer + length nl + length ?cs + length semi"
    using a1 a2 i1 p2 t2 nl' by (simp add: nl_def semi_def)
  then show ?thesis
    using de cl by blast
qed

theorem C4_heredoc_end_extent_witness:
  "scan_body c_locale heredoc_EOF (lexer_at [69, 79, 70, 10, 69, 79, 70, 59, 10] 3)
     = (True, create,
        \<lparr>input = [10], pos = 8, token_start = 4, token_end = Some 7,
          result_symbol = HEREDOC_END\<rparr>)
   \<and> string_wf (delimiter heredoc_EOF)
   \<and> NUL \<notin> set (delimiter_codes c_locale heredoc_EOF)
   \<and> delimiter_codes c_locale heredoc_EOF = [69, 79, 70]
   \<and> did_end heredoc_EOF \<and> create = closed heredoc_EOF"
proof -
  let ?end = "\<lparr>input = [10], pos = 8, token_start = 4, token_end = Some 7,
          result_symbol = HEREDOC_END\<rparr>"
  have h1: "scan_body c_locale heredoc_EOF (lexer_at [69, 79, 70, 10, 69, 79, 70, 59, 10] 3)
     = (True, create, ?end)"
    by (rule heredoc_EOF_end_scan)
  have h2: "result_symbol ?end = HEREDOC_END" by simp
  have h3: "string_wf (delimiter heredoc_EOF)" by (rule heredoc_EOF_wf)
  have cs: "delimiter_codes c_locale heredoc_EOF = [69, 79, 70]"
    by (simp add: delimiter_codes_def string_bytes_def heredoc_EOF_def char_to_int_def
        c_locale_def)
  then have h4: "NUL \<notin> set (delimiter_codes c_locale heredoc_EOF)" by simp
  show ?thesis
    using h1 h3 h4 cs C4_heredoc_end_extent [OF h1 h2 h3 h4] by simp
qed

text \<open>
  C5. The claim has the bytes 0x80-0xFF accepted in the first position of the identifier
  and nowhere else. \<open>scan_start\<close> asks \<open>iswalpha\<close> for the first character and \<open>iswalnum\<close> for
  the others (lines 345-349), not \<open>is_identifier_start_char\<close>: in the C locale the byte 0xE9
  is refused in the first position, and in a locale where it is alphabetic it is accepted
  in the second position as well.
\<close>

theorem C5_opener_counterexample:
  "claimed_opener c_locale [233, 10] = Some (False, [233])
   \<and> scan_start c_locale create (lexer_at [233, 10] 0) = Inr (False, create, lexer_at [233, 10] 0)
   \<and> claimed_opener latin1_locale [65, 233, 10] = None
   \<and> scan_start latin1_locale create (lexer_at [65, 233, 10] 0)
     = Inr (True,
            \<lparr>delimiter = \<lparr>cap = 16, len = 2, data = [65, 233] @ replicate 15 0\<rparr>,
              is_nowdoc = False, did_start = False, did_end = False\<rparr>,
            \<lparr>input = [], pos = 3, token_start = 0, token_end = Some 2,
              result_symbol = HEREDOC_START\<rparr>)"
proof -
  have "claimed_opener c_locale [233, 10] = Some (False, [233])"
    by code_simp
  moreover have "claimed_opener latin1_locale [65, 233, 10] = None"
    by code_simp
  ultimately show ?thesis
    using scan_start_high_byte scan_start_high_byte_latin1 by blast
qed

text \<open>
  C5, amended. For an input without NUL code points (and a well-formed delimiter string,
  fewer than \<open>2^31\<close> code points), \<open>scan_start\<close> succeeds if and only if, after the leading
  white space, the input is an optional single or double quote, a non-empty identifier
  whose first character is alphabetic (\<open>iswalpha\<close>) or \<open>_\<close> and whose other characters are
  alphanumeric (\<open>iswalnum\<close>) or \<open>_\<close>, the same quote again when there was one, and then
  a newline. On success the delimiter holds the identifier, each code point converted to
  \<open>char\<close>, and \<open>is_nowdoc\<close> is true exactly when the quote is a single quote.
\<close>

theorem C5_opener:
  assumes "string_wf (delimiter scanner)" and "length (input lexer) < 2 ^ 31"
    and "NUL \<notin> set (input lexer)"
  shows "\<exists>ok scanner' lexer'. scan_start P scanner lexer = Inr (ok, scanner', lexer')
     \<and> (case opener P (input lexer) of
           None \<Rightarrow> \<not> ok
         | Some (nowdoc, ident) \<Rightarrow>
             ok \<and> is_nowdoc scanner' = nowdoc
             \<and> string_bytes (delimiter scanner') = map int_to_char ident)"
proof -
  from scan_start_opener [OF assms, of P]
  obtain ok scanner' lexer' where st: "scan_start P scanner lexer = Inr (ok, scanner', lexer')"
    and c: "case opener P (input lexer) of
           None \<Rightarrow> \<not> ok
         | Some (nowdoc, ident) \<Rightarrow>
             ok \<and> is_nowdoc scanner' = nowdoc
             \<and> string_bytes (delimiter scanner') = map int_to_char ident
             \<and> unat (len (delimiter scanner')) = length ident"
    by blast
  have "case opener P (input lexer) of
           None \<Rightarrow> \<not> ok
         | Some (nowdoc, ident) \<Rightarrow>
             ok \<and> is_nowdoc scanner' = nowdoc
             \<and> string_bytes (delimiter scanner') = map int_to_char ident"
    using c by (auto split: option.splits)
  then show ?thesis
    using st by blast
qed

theorem C5_opener_witness:
  "string_wf (delimiter create)
   \<and> length (input (lexer_at [32, 39, 69, 79, 70, 39, 10, 120] 0)) < 2 ^ 31
   \<and> NUL \<notin> set (input (lexer_at [32, 39, 69, 79, 70, 39, 10, 120] 0))
   \<and> opener c_locale (input (lexer_at [32, 39, 69, 79, 70, 39, 10, 120] 0))
       = Some (True, [69, 79, 70])
   \<and> (\<exists>scanner' lexer'.
         scan_start c_locale create (lexer_at [32, 39, 69, 79, 70, 39, 10, 120] 0)
           = Inr (True, scanner', lexer')
         \<and> is_nowdoc scanner' \<and> string_bytes (delimiter scanner') = [69, 79, 70])"
proof -
  let ?l = "lexer_at [32, 39, 69, 79, 70, 39, 10, 120] 0"
  have h1: "string_wf (delimiter create)" by (rule create_wf)
  have h2: "length (input ?l) < 2 ^ 31" by (simp add: lexer_at_def)
  have h3: "NUL \<notin> set (input ?l)" by (simp add: lexer_at_def)
  have op: "opener c_locale (input ?l) = Some (True, [69, 79, 70])"
    by code_simp
  have ch: "map int_to_char [69, 79, 70] = [69, 79, 70]"
    by (simp add: int_to_char_def)
  have "\<exists>scanner' lexer'.
         scan_start c_locale create ?l = Inr (True, scanner', lexer')
         \<and> is_nowdoc scanner' \<and> string_bytes (delimiter scanner') = [69, 79, 70]"
    using C5_opener [OF h1 h2 h3, of c_locale] ch by (auto simp: op)
  then show ?thesis
    using h1 h2 h3 op by blast
qed

text \<open>
  C6. \<open>scan_body\<close> emits \<open>EMBEDDED_OPENING_BRACE\<close> if and only if \<open>is_nowdoc\<close> is false,
  \<open>did_advance\<close> is false, and the input at the cursor is \<open>{\<close>, \<open>$\<close> and an
  identifier-start character: stated for the loop entered with any value of \<open>did_advance\<close>,
  and for the whole scan, where it means that the three characters stand at the position
  the scan started from. So it is never emitted in a nowdoc, and never after body bytes
  were consumed in the same scan.
\<close>

theorem C6_embedded_opening_brace:
  "((\<exists>scanner' lexer'. scan_body_loop P scanner did_advance lexer = (True, scanner', lexer')
        \<and> result_symbol lexer' = EMBEDDED_OPENING_BRACE)
     \<longleftrightarrow> \<not> is_nowdoc scanner \<and> \<not> did_advance
          \<and> (\<exists>c rest. input lexer = LBRACE # DOLLAR # c # rest \<and> is_identifier_start_char c))
   \<and> ((\<exists>scanner' lexer'. scan_body P scanner lexer = (True, scanner', lexer')
        \<and> result_symbol lexer' = EMBEDDED_OPENING_BRACE)
     \<longleftrightarrow> \<not> is_nowdoc scanner
          \<and> (\<exists>c rest. input lexer = LBRACE # DOLLAR # c # rest \<and> is_identifier_start_char c))"
proof -
  have main: "(\<exists>scanner' lexer'. scan_body_loop P scanner d lexer = (True, scanner', lexer')
        \<and> result_symbol lexer' = EMBEDDED_OPENING_BRACE)
     \<longleftrightarrow> \<not> is_nowdoc scanner \<and> \<not> d
          \<and> (\<exists>c rest. input lexer = LBRACE # DOLLAR # c # rest \<and> is_identifier_start_char c)"
    (is "?L \<longleftrightarrow> ?R") for d
  proof
    assume ?L
    then obtain scanner' lexer' where
      l: "scan_body_loop P scanner d lexer = (True, scanner', lexer')"
      and sym: "result_symbol lexer' = EMBEDDED_OPENING_BRACE"
      by blast
    show ?R
    proof (cases "scan_body_step P scanner d lexer")
      case (Return r1 s1 l1)
      then have "scan_body_loop P scanner d lexer = (r1, s1, l1)"
        by (rule scan_body_loop_Return)
      then have "r1" "l1 = lexer'"
        using l by simp_all
      then show ?thesis
        using scan_body_step_brace [OF Return] sym by blast
    next
      case (Continue d1 l1)
      then have d1: "d1" using scan_body_step_Continue by blast
      have "scan_body_loop P scanner d lexer = scan_body_loop P scanner d1 l1"
        using Continue by (rule scan_body_loop_Continue)
      then have "scan_body_loop P scanner True l1 = (True, scanner', lexer')"
        using d1 l by simp
      from scan_body_loop_advanced_no_brace [OF this] sym show ?thesis by simp
    qed
  next
    assume r: ?R
    then obtain c rest where i: "input lexer = LBRACE # DOLLAR # c # rest"
      "is_identifier_start_char c"
      by blast
    have "\<not> d" "\<not> is_nowdoc scanner" using r by simp_all
    from scan_body_step_at_brace [OF this(2) i, of P] this(1)
    show ?L
      by (auto dest!: scan_body_loop_Return)
  qed
  show ?thesis
    using main [of did_advance] main [of False] by (simp add: scan_body_def)
qed

theorem C6_embedded_opening_brace_witness:
  "\<exists>scanner' lexer'.
      scan_body c_locale heredoc_body (lexer_at [123, 36, 120, 125, 10] 0) = (True, scanner', lexer')
      \<and> result_symbol lexer' = EMBEDDED_OPENING_BRACE"
  using C6_embedded_opening_brace
          [of c_locale heredoc_body False "lexer_at [123, 36, 120, 125, 10] 0"]
  by (simp add: heredoc_body_def lexer_at_def is_identifier_start_char_def)

text \<open>
  C7. The claim has the scan at a \<open>$\<close> before an identifier succeed exactly when input was
  consumed earlier in the same scan. The scan returns \<open>did_advance\<close>, and the code points
  consumed inside the iteration that reaches the \<open>$\<close> do not set it: on the input
  \<open>{$$x\<close> scanned from its start, the \<open>$\<close> test stands at position 2 with the \<open>{\<close> and the
  first \<open>$\<close> consumed, and the scan returns false.
\<close>

theorem C7_dollar_site_counterexample:
  "scan_body c_locale heredoc_body (lexer_at [123, 36, 36, 120, 10] 0)
     = (False, heredoc_body,
        \<lparr>input = [120, 10], pos = 3, token_start = 0, token_end = Some 1,
          result_symbol = HEREDOC_BODY\<rparr>)
   \<and> \<not> is_nowdoc heredoc_body
   \<and> scan_body_step c_locale heredoc_body False (lexer_at [123, 36, 36, 120, 10] 0)
       = scan_body_dollar heredoc_body False
           \<lparr>input = [36, 120, 10], pos = 2, token_start = 0, token_end = Some 1,
             result_symbol = HEREDOC_START\<rparr>
   \<and> is_identifier_start_char 120
   \<and> \<not> (fst (scan_body c_locale heredoc_body (lexer_at [123, 36, 36, 120, 10] 0))
          \<longleftrightarrow> pos (lexer_at [123, 36, 36, 120, 10] 0) < 2)"
proof -
  have "scan_body_step c_locale heredoc_body False (lexer_at [123, 36, 36, 120, 10] 0)
       = scan_body_dollar heredoc_body False
           \<lparr>input = [36, 120, 10], pos = 2, token_start = 0, token_end = Some 1,
             result_symbol = HEREDOC_START\<rparr>"
    by (simp add: scan_body_step_def scan_body_interpolation_def Let_def heredoc_body_def
        lexer_at_def peek_def next_l_def advance_def stop_l_def mark_end_def
        is_identifier_start_char_def numeral_2_eq_2)
  moreover have "is_identifier_start_char 120"
    by (simp add: is_identifier_start_char_def)
  moreover have "\<not> is_nowdoc heredoc_body"
    by (simp add: heredoc_body_def)
  ultimately show ?thesis
    using scan_body_brace_dollar_dollar by (simp add: lexer_at_def)
qed

text \<open>
  C7, amended. Outside a nowdoc the \<open>$\<close> test of lines 242-249 meets a \<open>$\<close> followed by an
  identifier-start character in three places (\<open>scan_body_interpolation_Return\<close>: there is no
  other): at the head of an iteration, behind a \<open>{\<close> when \<open>did_advance\<close> is set, and behind
  \<open>{$\<close> when it is not. There the scan sets \<open>HEREDOC_BODY\<close> and returns \<open>did_advance\<close>, which
  is true exactly when input was consumed before the iteration began. The mark is at
  the head of the iteration, so a successful scan ends the token in front of the \<open>$\<close>, or
  of the \<open>{\<close> before it; only behind \<open>{$\<close>, where the scan fails, it is one code point
  further. A \<open>$\<close> behind a backslash is at none of these places: the iteration of the
  backslash consumes it (lines 218-223).
\<close>

theorem C7_dollar_site:
  assumes "scan_body_after P scanner n False lexer0 = Some (did_advance, lexer)"
    and "\<not> is_nowdoc scanner"
    and "input lexer = before @ DOLLAR # c # rest" and "is_identifier_start_char c"
    and "before = [] \<or> (before = [LBRACE] \<and> did_advance)
         \<or> (before = [LBRACE, DOLLAR] \<and> \<not> did_advance)"
  shows "scan_body P scanner lexer0 =
           (did_advance, scanner,
            lexer\<lparr>input := c # rest, pos := pos lexer + length before + 1,
                   token_end := Some (pos lexer + (length before - 1)),
                   result_symbol := HEREDOC_BODY\<rparr>)
         \<and> (did_advance \<longleftrightarrow> pos lexer0 < pos lexer)
         \<and> scan_body_step P scanner did_advance lexer =
             scan_body_dollar scanner did_advance
               (lexer\<lparr>input := DOLLAR # c # rest, pos := pos lexer + length before,
                      token_end := Some (pos lexer + (length before - 1))\<rparr>)"
proof -
  have st: "scan_body_step P scanner did_advance lexer =
           Return did_advance scanner
             (lexer\<lparr>input := c # rest, pos := pos lexer + length before + 1,
                    token_end := Some (pos lexer + (length before - 1)),
                    result_symbol := HEREDOC_BODY\<rparr>)"
    using assms(2-5) by (rule scan_body_step_dollar_site)
  have "scan_body P scanner lexer0 = scan_body_loop P scanner did_advance lexer"
    using scan_body_after_loop [OF assms(1)] by (simp add: scan_body_def)
  also have "\<dots> = (did_advance, scanner,
            lexer\<lparr>input := c # rest, pos := pos lexer + length before + 1,
                   token_end := Some (pos lexer + (length before - 1)),
                   result_symbol := HEREDOC_BODY\<rparr>)"
    using st by (rule scan_body_loop_Return)
  finally have res: "scan_body P scanner lexer0 = (did_advance, scanner,
            lexer\<lparr>input := c # rest, pos := pos lexer + length before + 1,
                   token_end := Some (pos lexer + (length before - 1)),
                   result_symbol := HEREDOC_BODY\<rparr>)" .
  have inv: "body_inv scanner lexer0 did_advance lexer"
    using assms(1) by (rule body_inv_after)
  have "peek lexer = LBRACE \<or> peek lexer = DOLLAR"
    using assms(3,5) by (auto simp: peek_def)
  with inv assms(2) have mv: "did_advance \<longleftrightarrow> pos lexer0 < pos lexer"
    by (rule did_advance_moved)
  have "scan_body_dollar scanner did_advance
               (lexer\<lparr>input := DOLLAR # c # rest, pos := pos lexer + length before,
                      token_end := Some (pos lexer + (length before - 1))\<rparr>)
        = Return did_advance scanner
             (lexer\<lparr>input := c # rest, pos := pos lexer + length before + 1,
                    token_end := Some (pos lexer + (length before - 1)),
                    result_symbol := HEREDOC_BODY\<rparr>)"
    using assms(4)
    by (simp add: scan_body_dollar_def Let_def peek_def next_l_def advance_def set_symbol_def)
  then show ?thesis
    using res mv st by simp
qed

theorem C7_dollar_site_witness:
  "scan_body_after c_locale heredoc_body 1 False (lexer_at [97, 123, 36, 120, 10] 0)
     = Some (True, (lexer_at [97, 123, 36, 120, 10] 0)\<lparr>input := [123, 36, 120, 10], pos := 1\<rparr>)
   \<and> \<not> is_nowdoc heredoc_body
   \<and> is_identifier_start_char 120
   \<and> scan_body c_locale heredoc_body (lexer_at [97, 123, 36, 120, 10] 0)
       = (True, heredoc_body,
          \<lparr>input = [120, 10], pos = 3, token_start = 0, token_end = Some 1,
            result_symbol = HEREDOC_BODY\<rparr>)
   \<and> scan_body_after c_locale heredoc_body 0 False (lexer_at [123, 36, 36, 120, 10] 0)
     = Some (False, lexer_at [123, 36, 36, 120, 10] 0)
   \<and> scan_body c_locale heredoc_body (lexer_at [123, 36, 36, 120, 10] 0)
       = (False, heredoc_body,
          \<lparr>input = [120, 10], pos = 3, token_start = 0, token_end = Some 1,
            result_symbol = HEREDOC_BODY\<rparr>)
   \<and> scan_body_after c_locale heredoc_body 1 False (lexer_at [97, 36, 120, 10] 0)
     = Some (True, (lexer_at [97, 36, 120, 10] 0)\<lparr>input := [36, 120, 10], pos := 1\<rparr>)
   \<and> scan_body c_locale heredoc_body (lexer_at [97, 36, 120, 10] 0)
       = (True, heredoc_body,
          \<lparr>input = [120, 10], pos = 2, token_start = 0, token_end = Some 1,
            result_symbol = HEREDOC_BODY\<rparr>)"
proof -
  have h2: "\<not> is_nowdoc heredoc_body" by (simp add: heredoc_body_def)
  have h4: "is_identifier_start_char 120" by (simp add: is_identifier_start_char_def)
  let ?start = "lexer_at [97, 123, 36, 120, 10] 0"
  let ?site = "?start\<lparr>input := [123, 36, 120, 10], pos := 1\<rparr>"
  have a1: "scan_body_after c_locale heredoc_body 1 False ?start = Some (True, ?site)"
    by (simp add: scan_body_step_def heredoc_body_def lexer_at_def peek_def next_l_def
        advance_def)
  have a3: "input ?site = [LBRACE] @ DOLLAR # 120 # [10]" by simp
  have a: "scan_body c_locale heredoc_body ?start
       = (True, heredoc_body,
          \<lparr>input = [120, 10], pos = 3, token_start = 0, token_end = Some 1,
            result_symbol = HEREDOC_BODY\<rparr>)"
    using C7_dollar_site [OF a1 h2 a3 h4] by (simp add: lexer_at_def)
  let ?first = "lexer_at [123, 36, 36, 120, 10] 0"
  have b1: "scan_body_after c_locale heredoc_body 0 False ?first = Some (False, ?first)"
    by simp
  have b3: "input ?first = [LBRACE, DOLLAR] @ DOLLAR # 120 # [10]"
    by (simp add: lexer_at_def)
  have b: "scan_body c_locale heredoc_body ?first
       = (False, heredoc_body,
          \<lparr>input = [120, 10], pos = 3, token_start = 0, token_end = Some 1,
            result_symbol = HEREDOC_BODY\<rparr>)"
    using C7_dollar_site [OF b1 h2 b3 h4] by (simp add: lexer_at_def)
  let ?begin = "lexer_at [97, 36, 120, 10] 0"
  let ?head = "?begin\<lparr>input := [36, 120, 10], pos := 1\<rparr>"
  have c1: "scan_body_after c_locale heredoc_body 1 False ?begin = Some (True, ?head)"
    by (simp add: scan_body_step_def heredoc_body_def lexer_at_def peek_def next_l_def
        advance_def)
  have c3: "input ?head = [] @ DOLLAR # 120 # [10]" by simp
  have c: "scan_body c_locale heredoc_body ?begin
       = (True, heredoc_body,
          \<lparr>input = [120, 10], pos = 2, token_start = 0, token_end = Some 1,
            result_symbol = HEREDOC_BODY\<rparr>)"
    using C7_dollar_site [OF c1 h2 c3 h4] by (simp add: lexer_at_def)
  show ?thesis
    using a1 h2 h4 a b1 b c1 c by blast
qed

text \<open>
  C8. When the current character of the loop of \<open>scan_body\<close> is a backslash, the iteration
  advances twice and goes on with \<open>did_advance\<close> set, whatever \<open>is_nowdoc\<close> is. So the
  character after the backslash has no effect on the scan: no \<open>EMBEDDED_OPENING_BRACE\<close> is
  emitted in the rest of the scan, and the token does not end in front of the escaped
  character.
\<close>

theorem C8_backslash_escape:
  assumes "peek lexer = BACKSLASH"
  shows "scan_body_step P scanner did_advance lexer = Continue True (next_l (next_l lexer))
     \<and> scan_body_loop P scanner did_advance lexer
         = scan_body_loop P scanner True (next_l (next_l lexer))
     \<and> (\<forall>c rest. input lexer = BACKSLASH # c # rest \<longrightarrow>
           next_l (next_l lexer) = lexer\<lparr>input := rest, pos := pos lexer + 2\<rparr>
           \<and> (\<forall>r scanner' lexer'.
                 scan_body_loop P scanner did_advance lexer = (r, scanner', lexer') \<longrightarrow>
                   \<not> (r \<and> result_symbol lexer' = EMBEDDED_OPENING_BRACE)
                   \<and> (token_end lexer \<noteq> Some (pos lexer + 1) \<longrightarrow>
                        token_end lexer' \<noteq> Some (pos lexer + 1))))"
proof -
  have st: "scan_body_step P scanner did_advance lexer = Continue True (next_l (next_l lexer))"
    using assms by (simp add: scan_body_step_def)
  then have lp: "scan_body_loop P scanner did_advance lexer
         = scan_body_loop P scanner True (next_l (next_l lexer))"
    by (rule scan_body_loop_Continue)
  have rest: "next_l (next_l lexer) = lexer\<lparr>input := rest, pos := pos lexer + 2\<rparr>
           \<and> (\<forall>r scanner' lexer'.
                 scan_body_loop P scanner did_advance lexer = (r, scanner', lexer') \<longrightarrow>
                   \<not> (r \<and> result_symbol lexer' = EMBEDDED_OPENING_BRACE)
                   \<and> (token_end lexer \<noteq> Some (pos lexer + 1) \<longrightarrow>
                        token_end lexer' \<noteq> Some (pos lexer + 1)))"
    if i: "input lexer = BACKSLASH # c # rest" for c rest
  proof -
    have nn: "next_l (next_l lexer) = lexer\<lparr>input := rest, pos := pos lexer + 2\<rparr>"
      using i by (simp add: next_l_def advance_def)
    have "\<not> (r \<and> result_symbol lexer' = EMBEDDED_OPENING_BRACE)
                   \<and> (token_end lexer \<noteq> Some (pos lexer + 1) \<longrightarrow>
                        token_end lexer' \<noteq> Some (pos lexer + 1))"
      if l: "scan_body_loop P scanner did_advance lexer = (r, scanner', lexer')"
      for r scanner' lexer'
    proof -
      have l2: "scan_body_loop P scanner True (next_l (next_l lexer)) = (r, scanner', lexer')"
        using l lp by simp
      have "lexer_le (next_l (next_l lexer)) lexer'"
        using lexer_le_loop [of "next_l (next_l lexer)" P scanner True] l2 by simp
      then have "token_end lexer' = token_end lexer
                 \<or> (\<exists>p. token_end lexer' = Some p \<and> pos lexer + 2 \<le> p)"
        using nn by (auto simp: lexer_le_def)
      then show ?thesis
        using scan_body_loop_advanced_no_brace [OF l2] by auto
    qed
    then show ?thesis using nn by blast
  qed
  show ?thesis
    using st lp rest by blast
qed

theorem C8_backslash_escape_witness:
  "peek (lexer_at [92, 36, 120, 10] 0) = BACKSLASH
   \<and> scan_body_step c_locale heredoc_body False (lexer_at [92, 36, 120, 10] 0)
       = Continue True ((lexer_at [92, 36, 120, 10] 0)\<lparr>input := [120, 10], pos := 2\<rparr>)"
proof -
  have h: "peek (lexer_at [92, 36, 120, 10] 0) = BACKSLASH"
    by (simp add: lexer_at_def peek_def)
  show ?thesis
    using h C8_backslash_escape [OF h, of c_locale heredoc_body False]
    by (simp add: lexer_at_def)
qed

text \<open>
  C9. The claim bounds the delimiter by 255 bytes. Nothing in the code does: \<open>string_push\<close>
  doubles the capacity as often as needed, and \<open>scan\<close>, from the created scanner, accepts an
  opener of 256 letters and leaves a delimiter of 256 bytes.
\<close>

theorem C9_delimiter_invariant_counterexample:
  "delimiter_ok_255 create
   \<and> (case scan c_locale create (lexer_at (replicate 256 65 @ [10]) 0) (\<lambda>t. t = HEREDOC_START) of
         Inl e \<Rightarrow> False
       | Inr (ok, scanner', lexer') \<Rightarrow>
           ok \<and> unat (len (delimiter scanner')) = 256 \<and> \<not> delimiter_ok_255 scanner')"
proof -
  have "delimiter_ok_255 create"
    by (simp add: delimiter_ok_255_def delimiter_ok_def create_wf)
       (simp add: create_def string_new_def string_bytes_def)
  then show ?thesis
    using scan_long_delimiter by (auto simp: delimiter_ok_255_def)
qed

text \<open>
  C9, amended. In a locale that adds no alphabetic characters to the ASCII letters (the C
  locale), the delimiter buffer is well formed and holds only ASCII letters, digits and
  underscores in the created scanner, and every scan, successful or not, and every
  \<open>serialize\<close> followed by \<open>deserialize\<close> keeps it so. The length has no bound of 255.
\<close>

theorem C9_delimiter_invariant:
  assumes "\<forall>c. \<not> alpha_class P c"
  shows "delimiter_ok create
     \<and> (\<forall>scanner lexer expected result scanner' lexer'.
           delimiter_ok scanner \<and> scan P scanner lexer expected = Inr (result, scanner', lexer')
             \<longrightarrow> delimiter_ok scanner')
     \<and> (\<forall>scanner target buffer n buffer' scanner'.
           delimiter_ok scanner \<and> delimiter_ok target
           \<and> length buffer = unat TREE_SITTER_SERIALIZATION_BUFFER_SIZE
           \<and> serialize scanner buffer = Inr (n, buffer')
           \<and> deserialize target buffer' n = Inr scanner'
             \<longrightarrow> delimiter_ok scanner')"
proof -
  have "delimiter_ok create"
    by (simp add: delimiter_ok_def create_wf)
       (simp add: create_def string_new_def string_bytes_def)
  then show ?thesis
    using scan_delimiter_ok [OF assms] round_trip_delimiter_ok by blast
qed

theorem C9_delimiter_invariant_witness:
  "(\<forall>c. \<not> alpha_class c_locale c)
   \<and> delimiter_ok create
   \<and> scan c_locale create (lexer_at [69, 79, 70, 10] 0) (\<lambda>t. t = HEREDOC_START)
       = Inr (True, heredoc_EOF\<lparr>did_end := False\<rparr>,
              \<lparr>input = [], pos = 4, token_start = 0, token_end = Some 3,
                result_symbol = HEREDOC_START\<rparr>)
   \<and> delimiter_ok (heredoc_EOF\<lparr>did_end := False\<rparr>)"
proof -
  have h: "\<forall>c. \<not> alpha_class c_locale c" by (simp add: c_locale_def)
  note c9 = C9_delimiter_invariant [OF h]
  have sc: "scan c_locale create (lexer_at [69, 79, 70, 10] 0) (\<lambda>t. t = HEREDOC_START)
       = Inr (True, heredoc_EOF\<lparr>did_end := False\<rparr>,
              \<lparr>input = [], pos = 4, token_start = 0, token_end = Some 3,
                result_symbol = HEREDOC_START\<rparr>)"
    using scan_start_EOF by (simp add: scan_def create_def string_new_def)
  have a: "delimiter_ok create" using c9 by (rule conjunct1)
  have "delimiter_ok (heredoc_EOF\<lparr>did_end := False\<rparr>)"
    using c9 a sc by blast
  then show ?thesis
    using h a sc by blast
qed

text \<open>
  C10. With a buffer of at most \<open>TREE_SITTER_SERIALIZATION_BUFFER_SIZE\<close> bytes: every nonzero
  value \<open>serialize\<close> returns is at least 3; for a length that is 0 or at least 3,
  \<open>deserialize\<close> computes the delimiter length \<open>length - 3\<close> without underflow; for the lengths
  1 and 2 the subtraction wraps to \<open>2^32 - 2\<close> and \<open>2^32 - 1\<close>, and that value is used as the
  delimiter length: as the byte count of the \<open>memcpy\<close> from offset 3 of the buffer, or as
  the offset at which \<open>string_resize\<close> clears the terminator, and the access leaves its
  object.
\<close>

theorem C10_length_arithmetic:
  assumes "3 \<le> length buffer" and "length buffer \<le> unat TREE_SITTER_SERIALIZATION_BUFFER_SIZE"
    and "string_wf (delimiter t)" and "cap (delimiter t) < 0xFFFFFFFE"
  shows "(\<forall>s n buffer'. serialize s buffer = Inr (n, buffer') \<and> n \<noteq> 0 \<longrightarrow> 3 \<le> n)
     \<and> (\<forall>n s'. (n = 0 \<or> 3 \<le> n) \<and> deserialize t buffer n = Inr s' \<longrightarrow>
            (if n = 0 then len (delimiter s') = 0
             else len (delimiter s') = n - 3 \<and> int (unat (n - 3)) = int (unat n) - 3))
     \<and> (1 :: u32) - 3 = 0xFFFFFFFE \<and> (2 :: u32) - 3 = 0xFFFFFFFF
     \<and> deserialize t buffer 1 = Inl (OutOfBounds 3 (2 ^ 32 - 2))
     \<and> deserialize t buffer 2 = Inl (OutOfBounds (2 ^ 32 - 1) 1)"
proof -
  have lb: "length buffer \<le> 1024"
    using assms(2) by (simp add: TREE_SITTER_SERIALIZATION_BUFFER_SIZE_def)
  have a: "3 \<le> n" if "serialize s buffer = Inr (n, buffer')" "n \<noteq> 0" for s n buffer'
  proof -
    from serialize_Inr_fits [OF that]
    have fit: "3 + unat (len (delimiter s)) \<le> length buffer" and n: "n = len (delimiter s) + 3"
      by auto
    have "unat (len (delimiter s) + 3) = unat (len (delimiter s)) + 3"
      using fit lb by (simp add: unat_word_ariths)
    then show ?thesis
      using n by (simp add: word_le_nat_alt)
  qed
  have b: "if n = 0 then len (delimiter s') = 0
           else len (delimiter s') = n - 3 \<and> int (unat (n - 3)) = int (unat n) - 3"
    if "n = 0 \<or> 3 \<le> n" "deserialize t buffer n = Inr s'" for n s'
  proof (cases "n = 0")
    case True
    then show ?thesis using that(2) by (auto simp: deserialize_zero)
  next
    case False
    then have "3 \<le> n" using that(1) by simp
    then have "unat (n - 3) = unat n - 3" "3 \<le> unat n"
      by (simp_all add: unat_sub word_le_nat_alt)
    then show ?thesis
      using False deserialize_Inr_len [OF that(2) False] by simp
  qed
  have A: "\<forall>s n buffer'. serialize s buffer = Inr (n, buffer') \<and> n \<noteq> 0 \<longrightarrow> 3 \<le> n"
    using a by blast
  have B: "\<forall>n s'. (n = 0 \<or> 3 \<le> n) \<and> deserialize t buffer n = Inr s' \<longrightarrow>
            (if n = 0 then len (delimiter s') = 0
             else len (delimiter s') = n - 3 \<and> int (unat (n - 3)) = int (unat n) - 3)"
    using b by blast
  have C: "(1 :: u32) - 3 = 0xFFFFFFFE" "(2 :: u32) - 3 = 0xFFFFFFFF"
    by simp_all
  show ?thesis
    using A B C deserialize_wrapped [OF assms(1) lb assms(3) assms(4)] by blast
qed

theorem C10_length_arithmetic_witness:
  "3 \<le> length [1, 0, 1, 65, 66, 67 :: cchar]
   \<and> length [1, 0, 1, 65, 66, 67 :: cchar] \<le> unat TREE_SITTER_SERIALIZATION_BUFFER_SIZE
   \<and> string_wf (delimiter create) \<and> cap (delimiter create) < 0xFFFFFFFE
   \<and> (\<exists>s'. deserialize create [1, 0, 1, 65, 66, 67] 6 = Inr s' \<and> len (delimiter s') = 3)
   \<and> deserialize create [1, 0, 1, 65, 66, 67] 1 = Inl (OutOfBounds 3 4294967294)
   \<and> deserialize create [1, 0, 1, 65, 66, 67] 2 = Inl (OutOfBounds 4294967295 1)"
proof -
  let ?b = "[1, 0, 1, 65, 66, 67 :: cchar]"
  have h1: "3 \<le> length ?b" by simp
  have h2: "length ?b \<le> unat TREE_SITTER_SERIALIZATION_BUFFER_SIZE"
    by (simp add: TREE_SITTER_SERIALIZATION_BUFFER_SIZE_def)
  have h3: "string_wf (delimiter create)" by (rule create_wf)
  have h4: "cap (delimiter create) < 0xFFFFFFFE"
    by (simp add: create_def string_new_def)
  obtain s' where d: "deserialize create ?b 6 = Inr s'"
    using deserialize_nonzero [OF h3, of 6 ?b] by auto
  have "\<forall>n s'. (n = 0 \<or> 3 \<le> n) \<and> deserialize create ?b n = Inr s' \<longrightarrow>
            (if n = 0 then len (delimiter s') = 0
             else len (delimiter s') = n - 3 \<and> int (unat (n - 3)) = int (unat n) - 3)"
    using C10_length_arithmetic [OF h1 h2 h3 h4] by blast
  from this [rule_format, of 6 s'] have "len (delimiter s') = 3"
    using d by simp
  then show ?thesis
    using h1 h2 h3 h4 d C10_length_arithmetic [OF h1 h2 h3 h4] by simp
qed

end
